theory Spec2Isabelle
  imports Main "HOL-Library.Signed_Division" "HOL-Library.AList" "HOL-Library.Multiset"
begin

section \<open>go-test-teamcity: the converter of \<^verbatim>\<open>go test -v\<close> logs into TeamCity service messages\<close>

text \<open>
  The development embeds \<^verbatim>\<open>main.go\<close>. Go strings are byte strings and are modelled as
  \<^typ>\<open>string\<close> (a list of 8-bit characters). A \<^verbatim>\<open>*Test\<close> is an address into an explicit
  store, because the map \<^verbatim>\<open>tests\<close> and the variable \<^verbatim>\<open>test\<close> alias the same objects.
  Every write to the \<^verbatim>\<open>io.Writer\<close> is recorded as one event; \<open>render\<close> gives its bytes.
\<close>

subsection \<open>Strings\<close>

abbreviation NL :: char where "NL \<equiv> CHR 0x0A"
abbreviation CR :: char where "CR \<equiv> CHR 0x0D"
abbreviation TAB :: char where "TAB \<equiv> CHR 0x09"
abbreviation FF :: char where "FF \<equiv> CHR 0x0C"
abbreviation SQ :: char where "SQ \<equiv> CHR 0x27"

text \<open>\<^verbatim>\<open>strings.HasPrefix\<close> and \<^verbatim>\<open>strings.TrimPrefix\<close>.\<close>

definition HasPrefix :: "string \<Rightarrow> string \<Rightarrow> bool" where
  "HasPrefix s p = (take (length p) s = p)"

definition TrimPrefix :: "string \<Rightarrow> string \<Rightarrow> string" where
  "TrimPrefix s p = (if HasPrefix s p then drop (length p) s else s)"

text \<open>\<^verbatim>\<open>strings.Replace(s, old, new, -1)\<close> for a one-byte \<open>old\<close>, the only use in the source.\<close>

definition Replace :: "string \<Rightarrow> char \<Rightarrow> string \<Rightarrow> string" where
  "Replace s old new = concat (map (\<lambda>c. if c = old then new else [c]) s)"

text \<open>\<^verbatim>\<open>strings.Join(lines, "\n")\<close>.\<close>

fun Join :: "string list \<Rightarrow> string" where
  "Join [] = []"
| "Join [l] = l"
| "Join (l # ls) = l @ [NL] @ Join ls"

definition escape :: "string \<Rightarrow> string" where
  "escape s0 =
    (let s1 = Replace s0 (CHR ''|'') ''||'';
         s2 = Replace s1 NL ''|n'';
         s3 = Replace s2 CR ''|n'';
         s4 = Replace s3 SQ [CHR ''|'', SQ];
         s5 = Replace s4 (CHR '']'') ''|]'';
         s6 = Replace s5 (CHR ''['') ''|[''
     in s6)"

definition escapeLines :: "string list \<Rightarrow> string" where
  "escapeLines lines = escape (Join lines)"

text \<open>\<^verbatim>\<open>suite\<close>: the name up to its last slash, or the empty string.\<close>

definition suite :: "string \<Rightarrow> string" where
  "suite name =
    (case dropWhile (\<lambda>c. c \<noteq> CHR ''/'') (rev name) of
       [] \<Rightarrow> []
     | _ # r \<Rightarrow> rev r)"

subsection \<open>The regular expressions\<close>

text \<open>
  The classes of Go's \<^verbatim>\<open>regexp\<close>: \<^verbatim>\<open>\s\<close> is tab, newline, form feed, carriage return
  and space; \<^verbatim>\<open>[a-zA-Z_]\<close>; \<^verbatim>\<open>[\.\ds]\<close> is a dot, a digit or the letter s.
  In each expression a greedy repetition is followed by a character outside its class,
  so the leftmost-first match is the one that takes every repetition to its end.
\<close>

definition isSpace :: "char \<Rightarrow> bool" where
  "isSpace c = (c \<in> set [TAB, NL, FF, CR, CHR '' ''])"

definition isIdentStart :: "char \<Rightarrow> bool" where
  "isIdentStart c =
     (c \<in> set ''abcdefghijklmnopqrstuvwxyzABCDEFGHIJKLMNOPQRSTUVWXYZ_'')"

definition isDurChar :: "char \<Rightarrow> bool" where
  "isDurChar c = (c \<in> set ''.0123456789s'')"

definition stripPrefix :: "string \<Rightarrow> string \<Rightarrow> string option" where
  "stripPrefix p s = (if HasPrefix s p then Some (drop (length p) s) else None)"

text \<open>\<^verbatim>\<open>[a-zA-Z_]\S*\<close> at the head of a string: the capture and the rest.\<close>

definition ident :: "string \<Rightarrow> (string \<times> string) option" where
  "ident s =
    (case s of
       [] \<Rightarrow> None
     | c # cs \<Rightarrow>
         if isIdentStart c
         then Some (c # takeWhile (\<lambda>x. \<not> isSpace x) cs, dropWhile (\<lambda>x. \<not> isSpace x) cs)
         else None)"

text \<open>\<^verbatim>\<open>\s+\<close> at the head of a string: the rest, when at least one character matched.\<close>

definition spaces1 :: "string \<Rightarrow> string option" where
  "spaces1 s = (if takeWhile isSpace s = [] then None else Some (dropWhile isSpace s))"

text \<open>\<^verbatim>\<open>run = ^=== RUN\s+([a-zA-Z_]\S*)\<close>; the result is capture 1.\<close>

definition run :: "string \<Rightarrow> string option" where
  "run line =
    (case stripPrefix ''=== RUN'' line of
       None \<Rightarrow> None
     | Some r1 \<Rightarrow>
        (case spaces1 r1 of
           None \<Rightarrow> None
         | Some r2 \<Rightarrow>
            (case ident r2 of
               None \<Rightarrow> None
             | Some (name, _) \<Rightarrow> Some name)))"

text \<open>
  \<^verbatim>\<open>end = ^(\s*)--- (PASS|SKIP|FAIL):\s+([a-zA-Z_]\S*) \((-?[\.\ds]+)\)\<close>;
  the result is captures 1 to 4.
\<close>

definition end_re :: "string \<Rightarrow> (string \<times> string \<times> string \<times> string) option" where
  "end_re line =
    (case stripPrefix ''--- '' (dropWhile isSpace line) of
       None \<Rightarrow> None
     | Some r1 \<Rightarrow>
        if take 4 r1 \<notin> set [''PASS'', ''SKIP'', ''FAIL''] then None
        else
         (case stripPrefix '':'' (drop 4 r1) of
            None \<Rightarrow> None
          | Some r2 \<Rightarrow>
             (case spaces1 r2 of
                None \<Rightarrow> None
              | Some r3 \<Rightarrow>
                 (case ident r3 of
                    None \<Rightarrow> None
                  | Some (name, r4) \<Rightarrow>
                     (case stripPrefix '' ('' r4 of
                        None \<Rightarrow> None
                      | Some r5 \<Rightarrow>
                         (let sign = (if HasPrefix r5 ''-'' then ''-'' else []);
                              r6 = drop (length sign) r5;
                              num = takeWhile isDurChar r6
                          in if num \<noteq> [] \<and> HasPrefix (dropWhile isDurChar r6) '')''
                             then Some (takeWhile isSpace line, take 4 r1, name, sign @ num)
                             else None))))))"

text \<open>\<^verbatim>\<open>pkg = ^(ok|PASS|FAIL|exit status|Found)\<close>; only whether it matches is used.\<close>

definition pkg :: "string \<Rightarrow> bool" where
  "pkg line = (\<exists>p \<in> set [''ok'', ''PASS'', ''FAIL'', ''exit status'', ''Found'']. HasPrefix line p)"

text \<open>\<^verbatim>\<open>race = ^WARNING: DATA RACE\<close>.\<close>

definition race :: "string \<Rightarrow> bool" where
  "race line = HasPrefix line ''WARNING: DATA RACE''"

subsection \<open>Records, events and the environment\<close>

record Test =
  Start :: string
  Name :: string
  Output :: string
  Details :: "string list"
  Duration :: int
  Status :: string
  Race :: bool
  Suite :: bool

text \<open>
  One event for each call of \<^verbatim>\<open>fmt.Fprintf\<close> or \<^verbatim>\<open>fmt.Fprint\<close> on the writer, with the
  arguments of the call. \<open>TestFailed\<close> has the optional \<^verbatim>\<open>message\<close> attribute of the three
  format strings that write \<^verbatim>\<open>testFailed\<close>.
\<close>

datatype event =
    SuiteStarted string
  | SuiteFinished string
  | TestStarted string string
  | TestIgnored string string
  | TestFailed string string "string option" string
  | TestFinished string string int
  | Print string

text \<open>
  What the program takes from outside: the \<^verbatim>\<open>-name\<close> flag as \<^verbatim>\<open>main\<close> leaves it,
  \<^verbatim>\<open>time.ParseDuration\<close> of the Go library (its value in nanoseconds and whether it
  returned an error), the wall clock read by the \<open>k\<close>-th call of \<^verbatim>\<open>getNow\<close>, and the
  choices of Go's unspecified map iteration order.
\<close>

record env =
  additionalTestName :: string
  ParseDuration :: "string \<Rightarrow> int \<times> bool"
  getNow :: "nat \<Rightarrow> string"
  rangeSeed :: "nat list"

text \<open>
  The variables of \<^verbatim>\<open>processReader\<close>. The store \<open>heap\<close> holds the \<^verbatim>\<open>Test\<close> objects in the
  order of their allocation, and an address is an index into it. The map \<^verbatim>\<open>tests\<close> is an
  association list from names to addresses, \<^verbatim>\<open>test\<close> is an address or \<^verbatim>\<open>nil\<close>, \<open>w\<close> is
  what has been written, and \<open>clock\<close> counts the calls of \<^verbatim>\<open>getNow\<close>.
\<close>

record state =
  heap :: "Test list"
  tests :: "(string \<times> nat) list"
  test :: "nat option"
  suites :: "string list"
  final :: string
  prefix :: string
  w :: "event list"
  clock :: nat

subsection \<open>Writing events\<close>

function decimal :: "nat \<Rightarrow> string" where
  "decimal n =
    (if n < 10 then [char_of (48 + n)]
     else decimal (n div 10) @ [char_of (48 + n mod 10)])"
  by pat_completeness auto
termination
  by (relation "measure id") auto

definition fmt_d :: "int \<Rightarrow> string" where
  "fmt_d i = (if i < 0 then ''-'' @ decimal (nat (- i)) else decimal (nat i))"

fun render :: "event \<Rightarrow> string" where
  "render (SuiteStarted n) =
     ''##teamcity[testSuiteStarted name='' @ [SQ] @ n @ [SQ] @ '']'' @ [NL]"
| "render (SuiteFinished n) =
     ''##teamcity[testSuiteFinished name='' @ [SQ] @ n @ [SQ] @ '']'' @ [NL]"
| "render (TestStarted ts n) =
     ''##teamcity[testStarted timestamp='' @ [SQ] @ ts @ [SQ] @ '' name='' @ [SQ] @ n @ [SQ]
       @ '' captureStandardOutput='' @ [SQ] @ ''true'' @ [SQ] @ '']'' @ [NL]"
| "render (TestIgnored ts n) =
     ''##teamcity[testIgnored timestamp='' @ [SQ] @ ts @ [SQ] @ '' name='' @ [SQ] @ n @ [SQ]
       @ '']'' @ [NL]"
| "render (TestFailed ts n m d) =
     ''##teamcity[testFailed timestamp='' @ [SQ] @ ts @ [SQ] @ '' name='' @ [SQ] @ n @ [SQ]
       @ (case m of None \<Rightarrow> [] | Some msg \<Rightarrow> '' message='' @ [SQ] @ msg @ [SQ])
       @ '' details='' @ [SQ] @ d @ [SQ] @ '']'' @ [NL]"
| "render (TestFinished ts n d) =
     ''##teamcity[testFinished timestamp='' @ [SQ] @ ts @ [SQ] @ '' name='' @ [SQ] @ n @ [SQ]
       @ '' duration='' @ [SQ] @ fmt_d d @ [SQ] @ '']'' @ [NL]"
| "render (Print s) = s"

text \<open>
  \<^verbatim>\<open>outputTest\<close>, with the value \<open>now\<close> of its call of \<^verbatim>\<open>getNow\<close>. The quotient
  \<^verbatim>\<open>test.Duration/time.Millisecond\<close> is Go's division truncating towards zero.
\<close>

definition outputTest :: "env \<Rightarrow> string \<Rightarrow> Test \<Rightarrow> event list" where
  "outputTest e now t =
    (let testName = escape (additionalTestName e @ Name t)
     in [TestStarted (Start t) testName, Print (Output t)] @
        (if Status t = ''SKIP'' then [TestIgnored now testName]
         else
           (if Race t
            then [TestFailed now testName (Some ''Race detected!'') (escapeLines (Details t))]
            else if Status t = ''FAIL''
            then [TestFailed now testName None (escapeLines (Details t))]
            else if Status t = ''PASS'' then []
            else [TestFailed now testName (Some ''Test ended in panic.'')
                    (escapeLines (Details t))])
           @ [TestFinished now testName (Duration t sdiv 1000000)]))"

definition startSuite :: "string \<Rightarrow> event list" where
  "startSuite name = [SuiteStarted (escape name)]"

definition finishSuite :: "string \<Rightarrow> event list" where
  "finishSuite name = [SuiteFinished (escape name)]"

text \<open>A call \<^verbatim>\<open>outputTest(w, t)\<close> for the object at address \<open>a\<close>: it reads the clock once.\<close>

definition emitTest :: "env \<Rightarrow> nat \<Rightarrow> state \<Rightarrow> state" where
  "emitTest e a s =
     s\<lparr>w := w s @ outputTest e (getNow e (clock s)) (heap s ! a), clock := Suc (clock s)\<rparr>"

subsection \<open>The reader loop\<close>

text \<open>
  The loop of \<^verbatim>\<open>newTest\<close> over the ancestors of a name: every ancestor that is in the map
  gets \<^verbatim>\<open>Suite = true\<close>.
\<close>

function markSuites :: "(string \<times> nat) list \<Rightarrow> string \<Rightarrow> Test list \<Rightarrow> Test list" where
  "markSuites ts n h =
    (if n = [] then h
     else markSuites ts (suite n)
            (case map_of ts n of
               None \<Rightarrow> h
             | Some p \<Rightarrow> h[p := (h ! p)\<lparr>Suite := True\<rparr>]))"
  by pat_completeness auto

termination
proof (relation "measure (\<lambda>(ts, n, h). length n)")
  show "wf (measure (\<lambda>(ts, n, h). length n))"
    by simp
next
  fix ts :: "(string \<times> nat) list" and n :: string and h :: "Test list"
  assume "n \<noteq> []"
  have "length (dropWhile (\<lambda>c. c \<noteq> CHR ''/'') (rev n)) \<le> length n"
    using length_dropWhile_le [of "\<lambda>c. c \<noteq> CHR ''/''" "rev n"] by simp
  with \<open>n \<noteq> []\<close> have "length (suite n) < length n"
    by (auto simp: suite_def split: list.splits)
  then show "((ts, suite n,
                case map_of ts n of None \<Rightarrow> h | Some p \<Rightarrow> h[p := (h ! p)\<lparr>Suite := True\<rparr>]),
               (ts, n, h)) \<in> measure (\<lambda>(ts, n, h). length n)"
    by simp
qed

text \<open>
  The closure \<^verbatim>\<open>newTest\<close>: a fresh object (a new address at the end of the store) is put
  into the map under its name, and the ancestors of the name are marked. The result is
  the new address and the state.
\<close>

definition newTest :: "env \<Rightarrow> string \<Rightarrow> state \<Rightarrow> nat \<times> state" where
  "newTest e name s =
    (let t = \<lparr>Start = getNow e (clock s), Name = name, Output = [], Details = [],
               Duration = 0, Status = [], Race = False, Suite = False\<rparr>;
         a = length (heap s);
         ts = AList.update name a (tests s)
     in (a, s\<lparr>heap := markSuites ts (suite name) (heap s @ [t]),
               tests := ts,
               clock := Suc (clock s)\<rparr>))"

text \<open>
  The loop \<^verbatim>\<open>for j := len(suites) - 1; j >= 0; j--\<close> of the reader loop, as a
  recursion on \<open>j + 1\<close>: a suite that is not a prefix of the name is finished and the
  slice is cut at its index.
\<close>

fun finishLoop :: "string \<Rightarrow> nat \<Rightarrow> string list \<times> event list \<Rightarrow> string list \<times> event list" where
  "finishLoop name 0 (ss, evs) = (ss, evs)"
| "finishLoop name (Suc j) (ss, evs) =
     finishLoop name j
       (if \<not> HasPrefix name (ss ! j) then (take j ss, evs @ finishSuite (ss ! j))
        else (ss, evs))"

text \<open>Lines 136 to 148: the current test, which has a status, is written and forgotten.\<close>

definition finalize :: "env \<Rightarrow> nat \<Rightarrow> state \<Rightarrow> state" where
  "finalize e a s =
    (let (ss, evs) = finishLoop (Name (heap s ! a)) (length (suites s)) (suites s, w s);
         s1 = s\<lparr>suites := ss, w := evs\<rparr>;
         s2 = (if Suite (heap s1 ! a)
               then s1\<lparr>w := w s1 @ startSuite (Name (heap s1 ! a)),
                       suites := suites s1 @ [Name (heap s1 ! a)]\<rparr>
               else s1);
         s3 = emitTest e a s2
     in s3\<lparr>tests := AList.delete (Name (heap s3 ! a)) (tests s3), test := None\<rparr>)"

text \<open>
  The body of the reader loop for one line (the line has its newline), in its two parts.
  Lines 135 to 149: a current test that has a status is written when a start line, an
  end line or a summary line arrives.
\<close>

definition finalizeIfEnded :: "env \<Rightarrow> state \<Rightarrow> string \<Rightarrow> state" where
  "finalizeIfEnded e s line =
    (case test s of
       None \<Rightarrow> s
     | Some a \<Rightarrow>
         if Status (heap s ! a) \<noteq> [] \<and> (run line \<noteq> None \<or> end_re line \<noteq> None \<or> pkg line)
         then finalize e a s else s)"

text \<open>Lines 151 to 173: the chain of cases on the line.\<close>

definition dispatch :: "env \<Rightarrow> state \<Rightarrow> string \<Rightarrow> state" where
  "dispatch e s line =
    (case run line of
       Some name \<Rightarrow> (let (a, s1) = newTest e name s in s1\<lparr>test := Some a\<rparr>)
     | None \<Rightarrow>
        (case end_re line of
           Some (ind, status, name, dur) \<Rightarrow>
             (let (a, s1) = (case map_of (tests s) name of
                               Some a \<Rightarrow> (a, s)
                             | None \<Rightarrow> newTest e name s)
              in s1\<lparr>test := Some a,
                     prefix := ind @ [TAB],
                     heap := (heap s1)[a := (heap s1 ! a)
                                \<lparr>Status := status, Duration := fst (ParseDuration e dur)\<rparr>]\<rparr>)
         | None \<Rightarrow>
            if pkg line then s\<lparr>final := final s @ line\<rparr>
            else
             (case test s of
                Some a \<Rightarrow>
                  if race line
                  then s\<lparr>heap := (heap s)[a := (heap s ! a)\<lparr>Race := True\<rparr>]\<rparr>
                  else if Status (heap s ! a) \<noteq> [] \<and> HasPrefix line (prefix s)
                  then s\<lparr>heap := (heap s)[a := (heap s ! a)
                           \<lparr>Details := Details (heap s ! a)
                              @ [TrimPrefix (take (length line - 1) line) (prefix s)]\<rparr>]\<rparr>
                  else s\<lparr>heap := (heap s)[a := (heap s ! a)
                           \<lparr>Output := Output (heap s ! a) @ line\<rparr>]\<rparr>
              | None \<Rightarrow> s\<lparr>w := w s @ [Print line]\<rparr>)))"

definition step :: "env \<Rightarrow> state \<Rightarrow> string \<Rightarrow> state" where
  "step e s line = dispatch e (finalizeIfEnded e s line) line"

text \<open>
  \<^verbatim>\<open>r.ReadString('\n')\<close> on the bytes that the reader still holds: the line with its
  newline, the bytes left, and whether an error is returned. At the end of the input the
  bytes without a newline come back together with the error.
\<close>

definition ReadString :: "string \<Rightarrow> string \<times> string \<times> bool" where
  "ReadString r =
    (if NL \<in> set r
     then (takeWhile (\<lambda>c. c \<noteq> NL) r @ [NL], drop 1 (dropWhile (\<lambda>c. c \<noteq> NL) r), False)
     else (r, [], True))"

function loop :: "env \<Rightarrow> state \<Rightarrow> string \<Rightarrow> state" where
  "loop e s r =
    (case ReadString r of
       (line, r', err) \<Rightarrow> if err then s else loop e (step e s line) r')"
  by pat_completeness auto
termination
proof (relation "measure (\<lambda>(e, s, r). length r)")
  show "wf (measure (\<lambda>(e, s, r). length r))"
    by simp
next
  fix e :: env and s :: state and r line :: string and rest :: "string \<times> bool"
    and r' :: string and err :: bool
  assume rs: "(line, rest) = ReadString r" "(r', err) = rest" "\<not> err"
  then have nl: "NL \<in> set r" and r': "r' = drop 1 (dropWhile (\<lambda>c. c \<noteq> NL) r)"
    by (auto simp: ReadString_def split: if_splits)
  from nl have "dropWhile (\<lambda>c. c \<noteq> NL) r \<noteq> []"
    by simp
  moreover have "length (dropWhile (\<lambda>c. c \<noteq> NL) r) \<le> length r"
    by (rule length_dropWhile_le)
  ultimately have "length r' < length r"
    unfolding r' by (cases "dropWhile (\<lambda>c. c \<noteq> NL) r") auto
  then show "((e, step e s line, r'), (e, s, r)) \<in> measure (\<lambda>(e, s, r). length r)"
    by simp
qed

text \<open>
  \<^verbatim>\<open>for _, t := range tests\<close>: Go leaves the order of a map iteration open. The order is
  taken from a sequence of choices: each turn takes the entry that the next choice
  points at among the entries not yet visited. Every choice sequence gives a
  permutation and every permutation comes from a choice sequence.
\<close>

fun pick :: "nat \<Rightarrow> nat list \<Rightarrow> 'a list \<Rightarrow> 'a list" where
  "pick 0 cs xs = []"
| "pick (Suc n) cs xs =
     (if xs = [] then []
      else (let i = (case cs of [] \<Rightarrow> 0 | c # _ \<Rightarrow> c mod length xs)
            in xs ! i # pick n (drop 1 cs) (take i xs @ drop (Suc i) xs)))"

definition mapRange :: "nat list \<Rightarrow> 'a list \<Rightarrow> 'a list" where
  "mapRange cs xs = pick (length xs) cs xs"

text \<open>Lines 175 to 187, after the reader loop.\<close>

definition flush :: "env \<Rightarrow> state \<Rightarrow> event list" where
  "flush e s0 =
    (let s1 = (case test s0 of
                 None \<Rightarrow> s0
               | Some a \<Rightarrow>
                   (let s = emitTest e a s0
                    in s\<lparr>tests := AList.delete (Name (heap s ! a)) (tests s)\<rparr>));
         s2 = s1\<lparr>w := w s1 @ concat (map finishSuite (rev (suites s1)))\<rparr>;
         s3 = fold (\<lambda>(k, a) s. emitTest e a s) (mapRange (rangeSeed e) (tests s2)) s2
     in w s3 @ [Print (final s3)])"

definition init :: state where
  "init = \<lparr>heap = [], tests = [], test = None, suites = [], final = [],
           prefix = [TAB], w = [], clock = 0\<rparr>"

text \<open>\<^verbatim>\<open>processReader\<close>: the events written for the bytes of the reader.\<close>

definition processReader :: "env \<Rightarrow> string \<Rightarrow> event list" where
  "processReader e r = flush e (loop e init r)"

text \<open>The bytes that reach the writer.\<close>

definition processReader_bytes :: "env \<Rightarrow> string \<Rightarrow> string" where
  "processReader_bytes e r = concat (map render (processReader e r))"

subsection \<open>Notions used to state the properties\<close>

text \<open>What \<open>escape\<close> does to one byte.\<close>

definition esc_char :: "char \<Rightarrow> string" where
  "esc_char c =
    (if c = CHR ''|'' then ''||''
     else if c = NL \<or> c = CR then ''|n''
     else if c = SQ then [CHR ''|'', SQ]
     else if c = CHR '']'' then ''|]''
     else if c = CHR ''['' then ''|[''
     else [c])"

text \<open>
  The source has no inverse of \<open>escape\<close>. This is the reading of an escaped text that
  undoes the six replacements: a bar quotes the byte after it, and \<^verbatim>\<open>|n\<close> is a newline.
\<close>

fun unescape :: "string \<Rightarrow> string" where
  "unescape (c # d # s) =
     (if c = CHR ''|'' then (if d = CHR ''n'' then NL else d) # unescape s
      else c # unescape (d # s))"
| "unescape s = s"

text \<open>The lines that the reader loop gets: the bytes after the last newline are not one.\<close>

fun linesFrom :: "string \<Rightarrow> string \<Rightarrow> string list" where
  "linesFrom acc [] = []"
| "linesFrom acc (c # cs) =
     (if c = NL then (acc @ [NL]) # linesFrom [] cs else linesFrom (acc @ [c]) cs)"

definition linesRead :: "string \<Rightarrow> string list" where
  "linesRead r = linesFrom [] r"

fun isTestFailed :: "event \<Rightarrow> bool" where
  "isTestFailed (TestFailed ts n m d) = True"
| "isTestFailed _ = False"

text \<open>The lines that take the summary branch of the loop.\<close>

definition summaryLines :: "string \<Rightarrow> string list" where
  "summaryLines r = filter (\<lambda>l. run l = None \<and> end_re l = None \<and> pkg l) (linesRead r)"

text \<open>
  Reading the suite events of an output with a stack of open suites: a start opens its
  suite, a finish must name the suite opened last and closes it. The output is balanced
  when the reading succeeds and leaves no suite open.
\<close>

fun suiteStack :: "string list \<Rightarrow> event list \<Rightarrow> string list option" where
  "suiteStack stk [] = Some stk"
| "suiteStack stk (SuiteStarted n # evs) = suiteStack (n # stk) evs"
| "suiteStack stk (SuiteFinished n # evs) =
     (case stk of
        [] \<Rightarrow> None
      | m # stk' \<Rightarrow> if m = n then suiteStack stk' evs else None)"
| "suiteStack stk (_ # evs) = suiteStack stk evs"

definition balanced :: "event list \<Rightarrow> bool" where
  "balanced evs = (suiteStack [] evs = Some [])"

text \<open>
  Invariants of the reader loop: each open suite is a prefix of the suites opened after
  it, and the suites that the output leaves open are the entries of \<^verbatim>\<open>suites\<close>.
\<close>

fun isSuiteEvent :: "event \<Rightarrow> bool" where
  "isSuiteEvent (SuiteStarted n) = True"
| "isSuiteEvent (SuiteFinished n) = True"
| "isSuiteEvent _ = False"

fun chain :: "string list \<Rightarrow> bool" where
  "chain [] = True"
| "chain (x # xs) = ((\<forall>y \<in> set xs. HasPrefix y x) \<and> chain xs)"

definition sinv :: "state \<Rightarrow> bool" where
  "sinv s \<longleftrightarrow> chain (suites s) \<and> suiteStack [] (w s) = Some (map escape (rev (suites s)))"

text \<open>
  Counting: how often the output starts a test of name \<open>n\<close>, the test that a line names
  (a start line, else an end line), how many lines name \<open>n\<close>, how many start it.
\<close>

fun isStarted :: "string \<Rightarrow> event \<Rightarrow> bool" where
  "isStarted nm (TestStarted ts m) = (m = nm)"
| "isStarted nm _ = False"

definition emitted :: "env \<Rightarrow> string \<Rightarrow> event list \<Rightarrow> nat" where
  "emitted e n evs = length (filter (isStarted (escape (additionalTestName e @ n))) evs)"

definition nameOf :: "string \<Rightarrow> string option" where
  "nameOf line =
    (case run line of
       Some n \<Rightarrow> Some n
     | None \<Rightarrow> (case end_re line of Some (ind, status, n, dur) \<Rightarrow> Some n | None \<Rightarrow> None))"

definition named :: "string \<Rightarrow> string list \<Rightarrow> nat" where
  "named n ls = length (filter (\<lambda>l. nameOf l = Some n) ls)"


text \<open>
  The invariant of the store: the keys of the map are distinct, a key leads to an allocated
  object of that name, names have no white space, and the current test is in the map
  under its name.
\<close>

definition noSpace :: "string \<Rightarrow> bool" where
  "noSpace k = (\<forall>c \<in> set k. \<not> isSpace c)"

definition wf_store :: "Test list \<Rightarrow> (string \<times> nat) list \<Rightarrow> nat option \<Rightarrow> bool" where
  "wf_store h ts t \<longleftrightarrow>
     distinct (map fst ts)
     \<and> (\<forall>k a. map_of ts k = Some a \<longrightarrow> a < length h \<and> Name (h ! a) = k \<and> noSpace k)
     \<and> (\<forall>a. t = Some a \<longrightarrow> map_of ts (Name (h ! a)) = Some a)"

definition hinv :: "state \<Rightarrow> bool" where
  "hinv s = wf_store (heap s) (tests s) (test s)"

definition pending :: "string \<Rightarrow> state \<Rightarrow> nat" where
  "pending n s = (if map_of (tests s) n = None then 0 else 1)"

text \<open>The tests of name \<open>n\<close> written so far, and one more if the name is pending.\<close>

definition cnt :: "env \<Rightarrow> string \<Rightarrow> state \<Rightarrow> nat" where
  "cnt e n s = emitted e n (w s) + pending n s"

text \<open>
  The records of one name \<open>n\<close>, read off the lines alone. No record of the name is
  pending, or one is pending without a status (after a start line of \<open>n\<close>), or one is
  pending with a status (after an end line of \<open>n\<close>). A record with a status is written
  at the next start, end or summary line; \<open>track\<close> counts these writes. A start line of
  \<open>n\<close> puts a fresh record in the place of a pending one, which is then never written.
  At the end of the stream a pending record is written: \<open>expected\<close> is the number of
  tests of name \<open>n\<close> written in all. \<open>endedOnce\<close> says that no line names \<open>n\<close> after an
  end line of \<open>n\<close>.
\<close>

datatype pend = Absent | Started | Ended

definition boundary :: "string \<Rightarrow> bool" where
  "boundary l = (run l \<noteq> None \<or> end_re l \<noteq> None \<or> pkg l)"

definition track :: "string \<Rightarrow> pend \<times> nat \<Rightarrow> string \<Rightarrow> pend \<times> nat" where
  "track n pk l =
    (let written = (fst pk = Ended \<and> boundary l);
         k = (if written then Suc (snd pk) else snd pk);
         p = (if written then Absent else fst pk)
     in if run l = Some n then (Started, k)
        else if nameOf l = Some n then (Ended, k)
        else (p, k))"

definition expected :: "string \<Rightarrow> string list \<Rightarrow> nat" where
  "expected n ls =
    (let pk = foldl (track n) (Absent, 0) ls
     in if fst pk = Absent then snd pk else Suc (snd pk))"

definition closing :: "pend \<times> nat \<Rightarrow> nat" where
  "closing pk = (if fst pk = Absent then snd pk else Suc (snd pk))"

fun endedOnce :: "string \<Rightarrow> string list \<Rightarrow> bool" where
  "endedOnce n [] = True"
| "endedOnce n (l # ls) =
     (if run l = None \<and> nameOf l = Some n then named n ls = 0 else endedOnce n ls)"

text \<open>
  The same three cases in a state of the program, and the invariant that a pending record
  with a status is the current test.
\<close>

definition view :: "string \<Rightarrow> state \<Rightarrow> pend" where
  "view n s =
    (case map_of (tests s) n of
       None \<Rightarrow> Absent
     | Some a \<Rightarrow> if Status (heap s ! a) = [] then Started else Ended)"

definition ended_current :: "Test list \<Rightarrow> (string \<times> nat) list \<Rightarrow> nat option \<Rightarrow> bool" where
  "ended_current h ts t \<longleftrightarrow>
     (\<forall>k a. map_of ts k = Some a \<longrightarrow> Status (h ! a) \<noteq> [] \<longrightarrow> t = Some a)"

definition cinv :: "state \<Rightarrow> bool" where
  "cinv s = ended_current (heap s) (tests s) (test s)"

definition none_ended :: "state \<Rightarrow> bool" where
  "none_ended s \<longleftrightarrow> (\<forall>k a. map_of (tests s) k = Some a \<longrightarrow> Status (heap s ! a) = [])"

text \<open>
  An environment to run the program in: no name prefix, a clock that counts, and a
  duration parser that knows two texts and fails on every other.
\<close>

definition env0 :: env where
  "env0 = \<lparr>additionalTestName = [],
            ParseDuration = (\<lambda>s. if s = ''1s'' then (1000000000, False)
                                 else if s = ''0.00s'' then (0, False) else (0, True)),
            getNow = (\<lambda>k. replicate k (CHR ''I'')), rangeSeed = []\<rparr>"

section \<open>Properties\<close>

declare loop.simps [simp del]
declare markSuites.simps [simp del]
declare decimal.simps [simp del]

subsection \<open>Escaping\<close>

lemma Replace_Nil: "Replace [] old new = []"
  by (simp add: Replace_def)

lemma Replace_append: "Replace (s @ t) old new = Replace s old new @ Replace t old new"
  by (simp add: Replace_def)

lemma Replace_Cons: "Replace (c # s) old new = (if c = old then new else [c]) @ Replace s old new"
  by (simp add: Replace_def)

lemma escape_single: "escape [c] = esc_char c"
  by (simp add: escape_def esc_char_def Replace_Cons Replace_Nil)

lemma escape_Nil: "escape [] = []"
  by (simp add: escape_def Replace_Nil)

lemma escape_append: "escape (s @ t) = escape s @ escape t"
  by (simp add: escape_def Replace_append)

lemma escape_Cons: "escape (c # s) = esc_char c @ escape s"
  using escape_append [of "[c]" s] by (simp add: escape_single)

lemma escape_concat: "escape s = concat (map esc_char s)"
  by (induction s) (simp_all add: escape_Nil escape_Cons)

lemma unescape_esc_char: "CR \<noteq> c \<Longrightarrow> unescape (esc_char c @ s) = c # unescape s"
  by (cases s) (auto simp: esc_char_def)

lemma unescape_escape: "CR \<notin> set s \<Longrightarrow> unescape (escape s) = s"
  by (induction s) (simp_all add: escape_Nil escape_Cons unescape_esc_char)

lemma escape_inject:
  assumes "CR \<notin> set s" and "CR \<notin> set t" and "escape s = escape t"
  shows "s = t"
proof -
  have "unescape (escape s) = unescape (escape t)"
    using assms(3) by simp
  then show ?thesis
    using assms(1,2) by (simp add: unescape_escape)
qed

text \<open>
  Claim C8. For every string, \<open>escape\<close> is the six replacements of the source in their
  order: bar, newline, carriage return, quote, closing bracket, opening bracket; no
  replacement touches what an earlier one has put in, so each byte of the string is
  replaced on its own (a carriage return by \<^verbatim>\<open>|n\<close>, as a newline is). On a string without
  a carriage return, reading the escaped text back gives the string, and two such strings
  with the same escaped text are equal.
\<close>

theorem escape_roundtrip:
  "escape s =
     Replace (Replace (Replace (Replace (Replace (Replace s
       (CHR ''|'') ''||'') NL ''|n'') CR ''|n'') SQ [CHR ''|'', SQ])
       (CHR '']'') ''|]'') (CHR ''['') ''|[''
   \<and> escape s = concat (map esc_char s)
   \<and> (CR \<notin> set s \<longrightarrow>
        unescape (escape s) = s
        \<and> (\<forall>t. CR \<notin> set t \<and> escape t = escape s \<longrightarrow> t = s))"
proof (intro conjI allI impI)
  show "escape s =
     Replace (Replace (Replace (Replace (Replace (Replace s
       (CHR ''|'') ''||'') NL ''|n'') CR ''|n'') SQ [CHR ''|'', SQ])
       (CHR '']'') ''|]'') (CHR ''['') ''|[''"
    by (simp add: escape_def)
next
  show "escape s = concat (map esc_char s)"
    by (rule escape_concat)
next
  assume "CR \<notin> set s"
  then show "unescape (escape s) = s"
    by (rule unescape_escape)
next
  fix t assume s: "CR \<notin> set s" and t: "CR \<notin> set t \<and> escape t = escape s"
  from t have "CR \<notin> set t" and "escape t = escape s"
    by simp_all
  with s show "t = s"
    using escape_inject [of t s] by simp
qed

theorem escape_roundtrip_witness:
  "CR \<notin> set (''a|n['' @ [NL, SQ] @ '']|'')
   \<and> escape (''a|n['' @ [NL, SQ] @ '']|'') = ''a||n|[|n|'' @ [SQ] @ ''|]||''
   \<and> unescape (escape (''a|n['' @ [NL, SQ] @ '']|'')) = ''a|n['' @ [NL, SQ] @ '']|''
   \<and> escape (''x'' @ [CR] @ ''|y'') = ''x|n||y''
   \<and> Replace (Replace (Replace (Replace (Replace (Replace (''x'' @ [CR] @ ''|y'')
       (CHR ''|'') ''||'') NL ''|n'') CR ''|n'') SQ [CHR ''|'', SQ])
       (CHR '']'') ''|]'') (CHR ''['') ''|['' = ''x|n||y''
   \<and> escape [CR] = escape [NL]"
  using escape_roundtrip [of "''a|n['' @ [NL, SQ] @ '']|''"]
    escape_roundtrip [of "''x'' @ [CR] @ ''|y''"]
  by (simp add: escape_Cons escape_Nil esc_char_def Replace_Cons Replace_Nil)

subsection \<open>The reader loop as a fold over the lines\<close>

lemma linesFrom_no_NL: "NL \<notin> set r \<Longrightarrow> linesFrom acc r = []"
  by (induction r arbitrary: acc) auto

lemma linesFrom_NL:
  "NL \<in> set r \<Longrightarrow>
   linesFrom acc r =
     (acc @ takeWhile (\<lambda>c. c \<noteq> NL) r @ [NL])
       # linesFrom [] (drop 1 (dropWhile (\<lambda>c. c \<noteq> NL) r))"
  by (induction r arbitrary: acc) auto

lemma loop_fold: "loop e s r = foldl (step e) s (linesRead r)"
proof (induction e s r rule: loop.induct)
  case (1 e s r)
  show ?case
  proof (cases "NL \<in> set r")
    case False
    then show ?thesis
      by (subst loop.simps) (simp add: ReadString_def linesRead_def linesFrom_no_NL)
  next
    case True
    then have rs: "ReadString r =
        (takeWhile (\<lambda>c. c \<noteq> NL) r @ [NL], drop 1 (dropWhile (\<lambda>c. c \<noteq> NL) r), False)"
      by (simp add: ReadString_def)
    have "loop e s r =
        loop e (step e s (takeWhile (\<lambda>c. c \<noteq> NL) r @ [NL]))
          (drop 1 (dropWhile (\<lambda>c. c \<noteq> NL) r))"
      by (subst loop.simps) (simp add: rs)
    also have "\<dots> = foldl (step e) (step e s (takeWhile (\<lambda>c. c \<noteq> NL) r @ [NL]))
          (linesRead (drop 1 (dropWhile (\<lambda>c. c \<noteq> NL) r)))"
      using "1.IH" [OF rs [symmetric] refl] by simp
    also have "\<dots> = foldl (step e) s (linesRead r)"
      using True by (simp add: linesRead_def linesFrom_NL [of r "[]"])
    finally show ?thesis .
  qed
qed

lemmas regex_defs = run_def end_re_def pkg_def race_def stripPrefix_def HasPrefix_def
  spaces1_def ident_def isSpace_def isIdentStart_def isDurChar_def

lemmas reader_defs = processReader_def loop_fold linesRead_def markSuites.simps
  init_def step_def finalizeIfEnded_def dispatch_def flush_def
  newTest_def suite_def emitTest_def finalize_def mapRange_def finishSuite_def startSuite_def
  TrimPrefix_def Let_def

lemmas escape_eval = escape_Cons escape_Nil esc_char_def escapeLines_def signed_divide_int_def

subsection \<open>What one test writes\<close>

text \<open>
  Claim C2, amended. \<open>outputTest\<close> writes a \<^verbatim>\<open>testFailed\<close> event exactly when the status
  is not SKIP and the race flag is set or the status is not PASS (FAIL, unset, or any
  other text). The event is the only one of its kind; its message is the race message
  when the flag is set, absent for FAIL, and the panic message otherwise; its details
  are the escaped, joined detail lines.
\<close>

theorem outputTest_failed:
  "((\<exists>ev \<in> set (outputTest e now t). isTestFailed ev) \<longleftrightarrow>
      Status t \<noteq> ''SKIP'' \<and> (Status t = ''FAIL'' \<or> Race t \<or> Status t \<noteq> ''PASS''))
   \<and> filter isTestFailed (outputTest e now t) =
      (if Status t = ''SKIP'' then []
       else if Race t
       then [TestFailed now (escape (additionalTestName e @ Name t))
               (Some ''Race detected!'') (escape (Join (Details t)))]
       else if Status t = ''FAIL''
       then [TestFailed now (escape (additionalTestName e @ Name t))
               None (escape (Join (Details t)))]
       else if Status t = ''PASS'' then []
       else [TestFailed now (escape (additionalTestName e @ Name t))
               (Some ''Test ended in panic.'') (escape (Join (Details t)))])"
  by (simp add: outputTest_def escapeLines_def Let_def)

theorem outputTest_failed_witness:
  "filter isTestFailed
     (outputTest env0 ''now''
        \<lparr>Start = ''then'', Name = ''T[1]'', Output = ''out'', Details = [''a'', ''b''],
         Duration = 0, Status = [], Race = False, Suite = False\<rparr>) =
   [TestFailed ''now'' ''T|[1|]'' (Some ''Test ended in panic.'') ''a|nb'']"
  using outputTest_failed [of env0 "''now''"
        "\<lparr>Start = ''then'', Name = ''T[1]'', Output = ''out'', Details = [''a'', ''b''],
         Duration = 0, Status = [], Race = False, Suite = False\<rparr>"]
  by (simp add: env0_def escape_eval)

theorem skip_race_counterexample:
  "Race \<lparr>Start = ''then'', Name = ''T'', Output = [], Details = [],
         Duration = 0, Status = ''SKIP'', Race = True, Suite = False\<rparr>
   \<and> outputTest env0 ''now''
        \<lparr>Start = ''then'', Name = ''T'', Output = [], Details = [],
         Duration = 0, Status = ''SKIP'', Race = True, Suite = False\<rparr> =
      [TestStarted ''then'' ''T'', Print [], TestIgnored ''now'' ''T'']
   \<and> processReader env0
        (''=== RUN T'' @ [NL] @ ''WARNING: DATA RACE'' @ [NL] @ ''--- SKIP: T (0.00s)'' @ [NL]) =
      [TestStarted [] ''T'', Print [], TestIgnored ''I'' ''T'', Print []]"
  by (simp add: outputTest_def env0_def reader_defs regex_defs escape_eval)

lemma race_not_boundary:
  assumes "race line"
  shows "run line = None" and "end_re line = None" and "\<not> pkg line"
  using assms
  by (cases line; simp add: regex_defs)+

text \<open>
  Claim C6. A record with status PASS and the race flag set is written as started,
  failed with the race message, and finished. A race line read while a record is
  current sets the flag of that record and leaves it current. 
\<close>

theorem race_overrides_pass:
  "(Status t = ''PASS'' \<and> Race t \<longrightarrow>
      outputTest e now t =
        [TestStarted (Start t) (escape (additionalTestName e @ Name t)),
         Print (Output t),
         TestFailed now (escape (additionalTestName e @ Name t))
           (Some ''Race detected!'') (escapeLines (Details t)),
         TestFinished now (escape (additionalTestName e @ Name t)) (Duration t sdiv 1000000)])
   \<and> (test s = Some a \<and> a < length (heap s) \<and> race line \<longrightarrow>
        test (step e s line) = Some a \<and> Race (heap (step e s line) ! a))
   \<and> processReader e
        (''=== RUN TestR'' @ [NL] @ ''WARNING: DATA RACE'' @ [NL]
           @ ''--- PASS: TestR (0.01s)'' @ [NL]) =
        [TestStarted (getNow e 0) (escape (additionalTestName e @ ''TestR'')),
         Print [],
         TestFailed (getNow e 1) (escape (additionalTestName e @ ''TestR''))
           (Some ''Race detected!'') [],
         TestFinished (getNow e 1) (escape (additionalTestName e @ ''TestR''))
           (fst (ParseDuration e ''0.01s'') sdiv 1000000),
         Print []]"
proof (intro conjI impI)
  assume "Status t = ''PASS'' \<and> Race t"
  then show "outputTest e now t =
        [TestStarted (Start t) (escape (additionalTestName e @ Name t)),
         Print (Output t),
         TestFailed now (escape (additionalTestName e @ Name t))
           (Some ''Race detected!'') (escapeLines (Details t)),
         TestFinished now (escape (additionalTestName e @ Name t)) (Duration t sdiv 1000000)]"
    by (simp add: outputTest_def Let_def)
next
  assume a: "test s = Some a \<and> a < length (heap s) \<and> race line"
  then show "test (step e s line) = Some a"
    by (simp add: step_def finalizeIfEnded_def dispatch_def race_not_boundary)
  from a show "Race (heap (step e s line) ! a)"
    by (simp add: step_def finalizeIfEnded_def dispatch_def race_not_boundary)
next
  show "processReader e
        (''=== RUN TestR'' @ [NL] @ ''WARNING: DATA RACE'' @ [NL]
           @ ''--- PASS: TestR (0.01s)'' @ [NL]) =
        [TestStarted (getNow e 0) (escape (additionalTestName e @ ''TestR'')),
         Print [],
         TestFailed (getNow e 1) (escape (additionalTestName e @ ''TestR''))
           (Some ''Race detected!'') [],
         TestFinished (getNow e 1) (escape (additionalTestName e @ ''TestR''))
           (fst (ParseDuration e ''0.01s'') sdiv 1000000),
         Print []]"
    by (simp add: outputTest_def reader_defs regex_defs escapeLines_def escape_Nil)
qed

theorem race_overrides_pass_witness:
  "Status \<lparr>Start = ''then'', Name = ''T'', Output = ''o'', Details = [''d''],
           Duration = 2500000, Status = ''PASS'', Race = True, Suite = False\<rparr> = ''PASS''
   \<and> outputTest env0 ''now''
        \<lparr>Start = ''then'', Name = ''T'', Output = ''o'', Details = [''d''],
         Duration = 2500000, Status = ''PASS'', Race = True, Suite = False\<rparr> =
      [TestStarted ''then'' ''T'', Print ''o'',
       TestFailed ''now'' ''T'' (Some ''Race detected!'') ''d'',
       TestFinished ''now'' ''T'' 2]
   \<and> race (''WARNING: DATA RACE'' @ [NL])
   \<and> Race (heap (step env0
        (init\<lparr>heap := [\<lparr>Start = ''then'', Name = ''T'', Output = [], Details = [],
                          Duration = 0, Status = [], Race = False, Suite = False\<rparr>],
               tests := [(''T'', 0)], test := Some 0\<rparr>)
        (''WARNING: DATA RACE'' @ [NL])) ! 0)"
  using race_overrides_pass [of
        "\<lparr>Start = ''then'', Name = ''T'', Output = ''o'', Details = [''d''],
         Duration = 2500000, Status = ''PASS'', Race = True, Suite = False\<rparr>" env0 "''now''"
        "init\<lparr>heap := [\<lparr>Start = ''then'', Name = ''T'', Output = [], Details = [],
                          Duration = 0, Status = [], Race = False, Suite = False\<rparr>],
               tests := [(''T'', 0)], test := Some 0\<rparr>" 0 "''WARNING: DATA RACE'' @ [NL]"]
  by (simp add: env0_def init_def escape_eval race_def HasPrefix_def)

text \<open>
  Claim C1, amended. For the start line of \<^verbatim>\<open>TestA/Sub\<close> and its FAIL line, the program
  writes the started, failed and finished events of \<^verbatim>\<open>TestA/Sub\<close> and the empty summary,
  and nothing else: no record of \<^verbatim>\<open>TestA\<close> exists, so it has no suite events and no
  events of its own.
\<close>

theorem subtest_without_parent:
  "processReader e
     (''=== RUN TestA/Sub'' @ [NL] @ ''    --- FAIL: TestA/Sub (0.00s)'' @ [NL]) =
   [TestStarted (getNow e 0) (escape (additionalTestName e @ ''TestA/Sub'')),
    Print [],
    TestFailed (getNow e 1) (escape (additionalTestName e @ ''TestA/Sub'')) None [],
    TestFinished (getNow e 1) (escape (additionalTestName e @ ''TestA/Sub''))
      (fst (ParseDuration e ''0.00s'') sdiv 1000000),
    Print []]"
  by (simp add: outputTest_def reader_defs regex_defs escapeLines_def escape_Nil)

theorem subtest_without_parent_counterexample:
  "SuiteStarted ''TestA'' \<notin>
     set (processReader env0
            (''=== RUN TestA/Sub'' @ [NL] @ ''    --- FAIL: TestA/Sub (0.00s)'' @ [NL]))
   \<and> SuiteFinished ''TestA'' \<notin>
     set (processReader env0
            (''=== RUN TestA/Sub'' @ [NL] @ ''    --- FAIL: TestA/Sub (0.00s)'' @ [NL]))
   \<and> processReader env0
        (''=== RUN TestA/Sub'' @ [NL] @ ''    --- FAIL: TestA/Sub (0.00s)'' @ [NL]) =
      [TestStarted [] ''TestA/Sub'', Print [], TestFailed ''I'' ''TestA/Sub'' None [],
       TestFinished ''I'' ''TestA/Sub'' 0, Print []]"
  by (simp add: outputTest_def env0_def reader_defs regex_defs escape_eval)


lemma linesFrom_append_partial:
  "NL \<notin> set t \<Longrightarrow> linesFrom acc (s @ t) = linesFrom acc s"
  by (induction s arbitrary: acc) (simp_all add: linesFrom_no_NL)

text \<open>
  Claim C10. Bytes after the last newline of the input are returned by \<^verbatim>\<open>ReadString\<close>
  together with the error, and the loop stops before it looks at them: the state after
  the loop, and so everything written, is the same as without these bytes.
\<close>

theorem partial_line_discarded:
  assumes "NL \<notin> set t"
  shows "fst (ReadString t) = t \<and> snd (snd (ReadString t))
         \<and> loop e st (s @ t) = loop e st s
         \<and> processReader e (s @ t) = processReader e s"
  using assms
  by (simp add: processReader_def loop_fold linesRead_def linesFrom_append_partial ReadString_def)

theorem partial_line_discarded_witness:
  "NL \<notin> set ''--- PASS: A (1s)''
   \<and> processReader env0 (''=== RUN A'' @ [NL] @ ''--- PASS: A (1s)'') =
     [TestStarted [] ''A'', Print [], TestFailed ''I'' ''A'' (Some ''Test ended in panic.'') [],
      TestFinished ''I'' ''A'' 0, Print []]"
  using partial_line_discarded [of "''--- PASS: A (1s)''" env0 init "''=== RUN A'' @ [NL]"]
  by (simp add: outputTest_def env0_def reader_defs regex_defs escape_eval)

subsection \<open>The summary buffer\<close>

lemma final_emitTest: "final (emitTest e a s) = final s"
  by (simp add: emitTest_def)

lemma final_finalize: "final (finalize e a s) = final s"
  by (simp add: finalize_def Let_def split_beta final_emitTest)

lemma final_newTest: "final (snd (newTest e n s)) = final s"
  by (simp add: newTest_def Let_def)

lemma final_step:
  "final (step e s line) =
     (if run line = None \<and> end_re line = None \<and> pkg line then final s @ line else final s)"
  by (auto simp: step_def finalizeIfEnded_def dispatch_def Let_def split_beta
           final_finalize final_newTest split: option.splits)

lemma final_foldl:
  "final (foldl (step e) s ls) =
     final s @ concat (filter (\<lambda>l. run l = None \<and> end_re l = None \<and> pkg l) ls)"
  by (induction ls arbitrary: s) (simp_all add: final_step)

lemma final_fold_emitTest: "final (fold (\<lambda>(k, a) s. emitTest e a s) xs s) = final s"
  by (induction xs arbitrary: s) (simp_all add: split_beta final_emitTest)

lemma flush_final: "\<exists>evs. flush e s = evs @ [Print (final s)]"
  by (simp add: flush_def Let_def final_fold_emitTest final_emitTest split: option.splits)

text \<open>
  Claim C7. The last thing written is the summary buffer, and it is the lines that took
  the summary branch of the loop, in their order and byte for byte. Every other event,
  so every suite and test event, is written before it.
\<close>

theorem summary_last:
  "\<exists>evs. processReader e r = evs @ [Print (concat (summaryLines r))]
         \<and> processReader_bytes e r = concat (map render evs) @ concat (summaryLines r)"
proof -
  have "final (loop e init r) = concat (summaryLines r)"
    by (simp add: loop_fold final_foldl summaryLines_def init_def)
  then obtain evs where "processReader e r = evs @ [Print (concat (summaryLines r))]"
    using flush_final [of e "loop e init r"] by (auto simp: processReader_def)
  then show ?thesis
    by (auto simp: processReader_bytes_def)
qed


subsection \<open>Suites\<close>

lemma HasPrefix_trans:
  assumes "HasPrefix a b" and "HasPrefix b c"
  shows "HasPrefix a c"
proof -
  from assms have ab: "take (length b) a = b" and bc: "take (length c) b = c"
    by (simp_all add: HasPrefix_def)
  from bc have "length c \<le> length b"
    by (metis length_take min.cobounded1)
  then have "take (length c) (take (length b) a) = take (length c) a"
    by (simp add: min_def)
  with ab bc show ?thesis
    by (simp add: HasPrefix_def)
qed

lemma chain_snoc: "chain (xs @ [n]) \<longleftrightarrow> chain xs \<and> (\<forall>x \<in> set xs. HasPrefix n x)"
  by (induction xs) auto

lemma chain_take: "chain xs \<Longrightarrow> chain (take k xs)"
proof (induction xs arbitrary: k)
  case Nil
  then show ?case by simp
next
  case (Cons x xs)
  then show ?case
    by (cases k) (auto dest: in_set_takeD)
qed

lemma suiteStack_append:
  "suiteStack stk (evs @ evs') =
     (case suiteStack stk evs of None \<Rightarrow> None | Some stk' \<Rightarrow> suiteStack stk' evs')"
  by (induction stk evs rule: suiteStack.induct) (simp_all split: list.splits)

lemma suiteStack_other:
  "\<forall>ev \<in> set evs. \<not> isSuiteEvent ev \<Longrightarrow> suiteStack stk evs = Some stk"
  by (induction stk evs rule: suiteStack.induct) simp_all

lemma suiteStack_pops:
  "suiteStack (map escape ps @ stk) (map (\<lambda>n. SuiteFinished (escape n)) ps) = Some stk"
  by (induction ps) simp_all

lemma outputTest_no_suite: "\<forall>ev \<in> set (outputTest e now t). \<not> isSuiteEvent ev"
  by (simp add: outputTest_def Let_def)

lemma finishLoop_keep:
  "j \<le> length ss \<Longrightarrow> \<forall>i<j. HasPrefix name (ss ! i) \<Longrightarrow> finishLoop name j (ss, evs) = (ss, evs)"
  by (induction j) simp_all

lemma finishLoop_chain:
  "chain ss \<Longrightarrow>
   \<exists>k \<le> length ss.
     finishLoop name (length ss) (ss, evs) =
       (take k ss, evs @ map (\<lambda>n. SuiteFinished (escape n)) (rev (drop k ss)))
     \<and> (\<forall>x \<in> set (take k ss). HasPrefix name x)"
proof (induction ss arbitrary: evs rule: rev_induct)
  case Nil
  then show ?case by simp
next
  case (snoc x xs)
  then have ch: "chain xs" and pre: "\<forall>y \<in> set xs. HasPrefix x y"
    by (simp_all add: chain_snoc)
  show ?case
  proof (cases "HasPrefix name x")
    case True
    with pre have all: "\<forall>y \<in> set xs. HasPrefix name y"
      by (blast intro: HasPrefix_trans)
    then have "\<forall>i<length xs. HasPrefix name ((xs @ [x]) ! i)"
      by (simp add: nth_append)
    then have "finishLoop name (length xs) (xs @ [x], evs) = (xs @ [x], evs)"
      by (intro finishLoop_keep) simp_all
    with True all show ?thesis
      by (intro exI [of _ "length (xs @ [x])"]) simp
  next
    case False
    from snoc.IH [OF ch, of "evs @ finishSuite x"]
    obtain k where k: "k \<le> length xs"
      and fl: "finishLoop name (length xs) (xs, evs @ finishSuite x) =
         (take k xs, (evs @ finishSuite x) @ map (\<lambda>n. SuiteFinished (escape n)) (rev (drop k xs)))"
      and al: "\<forall>x \<in> set (take k xs). HasPrefix name x"
      by blast
    from False k fl al show ?thesis
      by (intro exI [of _ k]) (simp add: finishSuite_def)
  qed
qed

lemma finalize_frame:
  "heap (finalize e a s) = heap s"
  "tests (finalize e a s) = AList.delete (Name (heap s ! a)) (tests s)"
  "test (finalize e a s) = None"
  "prefix (finalize e a s) = prefix s"
  "clock (finalize e a s) = Suc (clock s)"
  by (simp_all add: finalize_def Let_def split_beta emitTest_def)

lemma finalize_out:
  assumes "chain (suites s)"
  shows "\<exists>k \<le> length (suites s).
     suites (finalize e a s) =
       take k (suites s) @ (if Suite (heap s ! a) then [Name (heap s ! a)] else [])
     \<and> w (finalize e a s) =
       w s @ map (\<lambda>n. SuiteFinished (escape n)) (rev (drop k (suites s)))
         @ (if Suite (heap s ! a) then [SuiteStarted (escape (Name (heap s ! a)))] else [])
         @ outputTest e (getNow e (clock s)) (heap s ! a)
     \<and> (\<forall>x \<in> set (take k (suites s)). HasPrefix (Name (heap s ! a)) x)"
proof -
  from finishLoop_chain [OF assms, of "Name (heap s ! a)" "w s"]
  obtain k where k: "k \<le> length (suites s)"
    and fl: "finishLoop (Name (heap s ! a)) (length (suites s)) (suites s, w s) =
       (take k (suites s),
        w s @ map (\<lambda>n. SuiteFinished (escape n)) (rev (drop k (suites s))))"
    and al: "\<forall>x \<in> set (take k (suites s)). HasPrefix (Name (heap s ! a)) x"
    by blast
  from k al show ?thesis
    by (intro exI [of _ k]) (simp add: finalize_def fl Let_def emitTest_def startSuite_def)
qed

lemma dispatch_frame:
  "suites (dispatch e s line) = suites s"
  "w (dispatch e s line) =
     w s @ (if run line = None \<and> end_re line = None \<and> \<not> pkg line \<and> test s = None
            then [Print line] else [])"
  by (simp_all add: dispatch_def Let_def split_beta newTest_def split: option.splits)

lemma sinv_finalize:
  assumes "sinv s"
  shows "sinv (finalize e a s)"
proof -
  from assms have ch: "chain (suites s)"
    and st: "suiteStack [] (w s) = Some (map escape (rev (suites s)))"
    by (simp_all add: sinv_def)
  from finalize_out [OF ch, of e a]
  obtain k where k: "k \<le> length (suites s)"
    and su: "suites (finalize e a s) =
       take k (suites s) @ (if Suite (heap s ! a) then [Name (heap s ! a)] else [])"
    and wr: "w (finalize e a s) =
       w s @ map (\<lambda>n. SuiteFinished (escape n)) (rev (drop k (suites s)))
         @ (if Suite (heap s ! a) then [SuiteStarted (escape (Name (heap s ! a)))] else [])
         @ outputTest e (getNow e (clock s)) (heap s ! a)"
    and al: "\<forall>x \<in> set (take k (suites s)). HasPrefix (Name (heap s ! a)) x"
    by blast
  have "rev (suites s) = rev (drop k (suites s)) @ rev (take k (suites s))"
    by (metis append_take_drop_id rev_append)
  then have st': "suiteStack [] (w s) =
      Some (map escape (rev (drop k (suites s))) @ map escape (rev (take k (suites s))))"
    by (simp add: st)
  have "suiteStack [] (w (finalize e a s)) = Some (map escape (rev (suites (finalize e a s))))"
    unfolding wr su
    by (simp add: suiteStack_append st' suiteStack_pops suiteStack_other outputTest_no_suite)
  moreover have "chain (suites (finalize e a s))"
    unfolding su using chain_take [OF ch, of k] al by (simp add: chain_snoc)
  ultimately show ?thesis
    by (simp add: sinv_def)
qed

lemma sinv_step: "sinv s \<Longrightarrow> sinv (step e s line)"
proof -
  assume "sinv s"
  then have "sinv (finalizeIfEnded e s line)"
    by (simp add: finalizeIfEnded_def sinv_finalize split: option.splits)
  then show ?thesis
    by (simp add: sinv_def step_def dispatch_frame suiteStack_append)
qed

lemma sinv_foldl: "sinv s \<Longrightarrow> sinv (foldl (step e) s ls)"
  by (induction ls arbitrary: s) (simp_all add: sinv_step)

lemma sinv_init: "sinv init"
  by (simp add: sinv_def init_def)

lemma emitTest_frame:
  "heap (emitTest e a s) = heap s"
  "tests (emitTest e a s) = tests s"
  "suites (emitTest e a s) = suites s"
  "final (emitTest e a s) = final s"
  "w (emitTest e a s) = w s @ outputTest e (getNow e (clock s)) (heap s ! a)"
  by (simp_all add: emitTest_def)

lemma suiteStack_fold_emitTest:
  "suiteStack stk (w (fold (\<lambda>(k, a) s. emitTest e a s) xs s)) = suiteStack stk (w s)"
proof (induction xs arbitrary: s)
  case Nil
  then show ?case by simp
next
  case (Cons x xs)
  then show ?case
    by (simp add: split_beta emitTest_frame suiteStack_append suiteStack_other
        outputTest_no_suite split: option.splits)
qed

lemma concat_finishSuite:
  "concat (map finishSuite xs) = map (\<lambda>n. SuiteFinished (escape n)) xs"
  by (induction xs) (simp_all add: finishSuite_def)

lemma balanced_flush:
  assumes "sinv s"
  shows "balanced (flush e s)"
proof -
  from assms have st: "suiteStack [] (w s) = Some (map escape (rev (suites s)))"
    by (simp add: sinv_def)
  have pops: "suiteStack (map escape (rev (suites s)))
        (concat (map finishSuite (rev (suites s)))) = Some []"
    using suiteStack_pops [of "rev (suites s)" "[]"]
    by (simp add: concat_finishSuite)
  show ?thesis
    by (simp add: balanced_def flush_def Let_def suiteStack_append suiteStack_fold_emitTest
        emitTest_frame suiteStack_other outputTest_no_suite st pops split: option.splits)
qed

text \<open>
  Claim C5. Reading the output from left to right with a stack, every
  \<^verbatim>\<open>testSuiteFinished\<close> names the suite of the latest \<^verbatim>\<open>testSuiteStarted\<close> that is
  still open, and at the end no suite is open: every start has one finish, and the
  finishes come in the reverse order of their starts.
\<close>

theorem suites_balanced: "balanced (processReader e r)"
  by (simp add: processReader_def loop_fold balanced_flush sinv_foldl sinv_init)


theorem suites_balanced_witness:
  "balanced (processReader env0
     (''=== RUN A'' @ [NL] @ ''=== RUN A/x'' @ [NL] @ ''--- PASS: A (1s)'' @ [NL]
        @ ''    --- PASS: A/x (1s)'' @ [NL] @ ''=== RUN B'' @ [NL]))
   \<and> processReader env0
     (''=== RUN A'' @ [NL] @ ''=== RUN A/x'' @ [NL] @ ''--- PASS: A (1s)'' @ [NL]
        @ ''    --- PASS: A/x (1s)'' @ [NL] @ ''=== RUN B'' @ [NL]) =
     [SuiteStarted ''A'', TestStarted [] ''A'', Print [], TestFinished ''II'' ''A'' 1000,
      TestStarted ''I'' ''A/x'', Print [], TestFinished ''III'' ''A/x'' 1000,
      TestStarted ''IIII'' ''B'', Print [],
      TestFailed ''IIIII'' ''B'' (Some ''Test ended in panic.'') [],
      TestFinished ''IIIII'' ''B'' 0, SuiteFinished ''A'', Print []]
   \<and> \<not> balanced [SuiteStarted ''A'', SuiteStarted ''B'', SuiteFinished ''A'', SuiteFinished ''B'']
   \<and> \<not> balanced [SuiteStarted ''A'']"
  using suites_balanced [of env0
     "''=== RUN A'' @ [NL] @ ''=== RUN A/x'' @ [NL] @ ''--- PASS: A (1s)'' @ [NL]
        @ ''    --- PASS: A/x (1s)'' @ [NL] @ ''=== RUN B'' @ [NL]"]
  by (simp add: balanced_def outputTest_def env0_def reader_defs regex_defs escape_eval)


subsection \<open>The store and the map\<close>

lemma markSuites_length: "length (markSuites ts n h) = length h"
proof (induction ts n h rule: markSuites.induct)
  case (1 ts n h)
  show ?case
  proof (cases "n = []")
    case True
    then show ?thesis by (subst markSuites.simps) simp
  next
    case False
    then show ?thesis
      using "1.IH" by (subst markSuites.simps) (simp split: option.splits)
  qed
qed

lemma Name_list_update: "Name (h[p := (h ! p)\<lparr>Suite := b\<rparr>] ! i) = Name (h ! i)"
  by (cases "p < length h"; cases "i = p") (simp_all add: list_update_beyond)

lemma markSuites_Name: "Name (markSuites ts n h ! i) = Name (h ! i)"
proof (induction ts n h rule: markSuites.induct)
  case (1 ts n h)
  show ?case
  proof (cases "n = []")
    case True
    then show ?thesis by (subst markSuites.simps) simp
  next
    case False
    then show ?thesis
      using "1.IH" by (subst markSuites.simps) (simp add: Name_list_update split: option.splits)
  qed
qed

lemma ident_no_space: "ident s = Some (n, r) \<Longrightarrow> \<forall>c \<in> set n. \<not> isSpace c"
  by (auto simp: ident_def isIdentStart_def isSpace_def split: list.splits if_splits
      dest: set_takeWhileD)

lemma run_no_space: "run line = Some n \<Longrightarrow> \<forall>c \<in> set n. \<not> isSpace c"
  by (auto simp: run_def split: option.splits dest: ident_no_space)

lemma end_re_no_space: "end_re line = Some (ind, st, n, d) \<Longrightarrow> \<forall>c \<in> set n. \<not> isSpace c"
  by (auto simp: end_re_def Let_def split: option.splits if_splits dest: ident_no_space)

lemma nameOf_no_space: "nameOf line = Some n \<Longrightarrow> noSpace n"
  unfolding noSpace_def
  by (auto simp: nameOf_def split: option.splits dest!: run_no_space end_re_no_space)

lemma newTest_frame:
  "fst (newTest e x s) = length (heap s)"
  "tests (snd (newTest e x s)) = AList.update x (length (heap s)) (tests s)"
  "length (heap (snd (newTest e x s))) = Suc (length (heap s))"
  "test (snd (newTest e x s)) = test s"
  "w (snd (newTest e x s)) = w s"
  "suites (snd (newTest e x s)) = suites s"
  by (simp_all add: newTest_def Let_def markSuites_length)

lemma newTest_Name:
  "i \<le> length (heap s) \<Longrightarrow>
   Name (heap (snd (newTest e x s)) ! i) = (if i = length (heap s) then x else Name (heap s ! i))"
  by (simp add: newTest_def Let_def markSuites_Name nth_append)

lemma hinvD:
  assumes "hinv s" and "map_of (tests s) k = Some a"
  shows "a < length (heap s)" and "Name (heap s ! a) = k" and "noSpace k"
  using assms by (simp_all add: hinv_def wf_store_def)

lemma hinv_test:
  "hinv s \<Longrightarrow> test s = Some a \<Longrightarrow> map_of (tests s) (Name (heap s ! a)) = Some a"
  by (simp add: hinv_def wf_store_def)

lemma hinv_newTest:
  assumes "hinv s" and "noSpace x"
  shows "hinv ((snd (newTest e x s))\<lparr>test := Some (fst (newTest e x s))\<rparr>)"
proof -
  let ?s' = "(snd (newTest e x s))\<lparr>test := Some (fst (newTest e x s))\<rparr>"
  have d: "distinct (map fst (tests ?s'))"
    using assms(1) by (simp add: hinv_def wf_store_def newTest_frame AList.distinct_update)
  have m: "a < length (heap ?s') \<and> Name (heap ?s' ! a) = k \<and> noSpace k"
    if "map_of (tests ?s') k = Some a" for k a
  proof (cases "k = x")
    case True
    with that assms(2) show ?thesis
      by (simp add: newTest_frame newTest_Name AList.update_conv')
  next
    case False
    with that have "map_of (tests s) k = Some a"
      by (simp add: newTest_frame AList.update_conv')
    from hinvD [OF assms(1) this] show ?thesis
      by (simp add: newTest_frame newTest_Name)
  qed
  have t: "map_of (tests ?s') (Name (heap ?s' ! a)) = Some a" if "test ?s' = Some a" for a
    using that by (simp add: newTest_frame newTest_Name AList.update_conv')
  from d m t show ?thesis
    unfolding hinv_def wf_store_def by blast
qed

lemma hinv_finalize: "hinv s \<Longrightarrow> hinv (finalize e a s)"
  unfolding hinv_def wf_store_def
  by (simp add: finalize_frame AList.distinct_delete AList.delete_conv')

lemma hinv_finalizeIfEnded: "hinv s \<Longrightarrow> hinv (finalizeIfEnded e s line)"
  by (simp add: finalizeIfEnded_def hinv_finalize split: option.splits)

lemma Name_update_same:
  "Name v = Name (h ! a) \<Longrightarrow> Name (h[a := v] ! i) = Name (h ! i)"
  by (cases "a < length h"; cases "i = a") (simp_all add: list_update_beyond)

lemma wf_store_update:
  assumes "wf_store h ts t" and "Name v = Name (h ! a)"
  shows "wf_store (h[a := v]) ts t"
  using assms by (simp add: wf_store_def Name_update_same)

lemma wf_store_test:
  assumes "wf_store h ts t" and "map_of ts k = Some a"
  shows "wf_store h ts (Some a)"
  using assms by (simp add: wf_store_def)

lemma hinv_dispatch:
  assumes "hinv s"
  shows "hinv (dispatch e s line)"
proof (cases "run line")
  case (Some x)
  then have "noSpace x"
    by (intro nameOf_no_space [of line]) (simp add: nameOf_def)
  from hinv_newTest [OF assms this, of e] Some show ?thesis
    by (simp add: dispatch_def split_beta)
next
  case None
  note run = this
  show ?thesis
  proof (cases "end_re line")
    case (Some c)
    obtain ind status x dur where c: "c = (ind, status, x, dur)"
      by (cases c) auto
    from run Some c have cr: "noSpace x"
      by (intro nameOf_no_space [of line]) (simp add: nameOf_def)
    show ?thesis
    proof (cases "map_of (tests s) x")
      case None
      let ?s1 = "snd (newTest e x s)"
      have "hinv (?s1\<lparr>test := Some (fst (newTest e x s))\<rparr>)"
        using assms cr by (rule hinv_newTest)
      then have "wf_store (heap ?s1) (tests ?s1) (Some (length (heap s)))"
        by (simp add: hinv_def newTest_frame)
      then have "wf_store ((heap ?s1)[length (heap s) := (heap ?s1 ! length (heap s))
              \<lparr>Status := status, Duration := fst (ParseDuration e dur)\<rparr>])
            (tests ?s1) (Some (length (heap s)))"
        by (rule wf_store_update) simp
      then show ?thesis
        using run Some c None
        by (simp add: dispatch_def split_beta newTest_frame hinv_def)
    next
      case (Some a)
      from assms have "wf_store (heap s) (tests s) (test s)"
        by (simp add: hinv_def)
      then have "wf_store (heap s) (tests s) (Some a)"
        using Some by (rule wf_store_test)
      then have "wf_store ((heap s)[a := (heap s ! a)
              \<lparr>Status := status, Duration := fst (ParseDuration e dur)\<rparr>]) (tests s) (Some a)"
        by (rule wf_store_update) simp
      then show ?thesis
        using run \<open>end_re line = Some c\<close> c Some
        by (simp add: dispatch_def hinv_def)
    qed
  next
    case None
    note endl = this
    from assms have wf: "wf_store (heap s) (tests s) (test s)"
      by (simp add: hinv_def)
    show ?thesis
    proof (cases "test s")
      case None
      with wf run endl show ?thesis
        by (simp add: dispatch_def hinv_def)
    next
      case (Some a)
      have upd: "wf_store ((heap s)[a := v]) (tests s) (Some a)"
        if "Name v = Name (heap s ! a)" for v
        using wf that unfolding Some by (rule wf_store_update)
      from wf run endl Some show ?thesis
        by (simp add: dispatch_def hinv_def upd)
    qed
  qed
qed

lemma hinv_step: "hinv s \<Longrightarrow> hinv (step e s line)"
  by (simp add: step_def hinv_dispatch hinv_finalizeIfEnded)

lemma hinv_init: "hinv init"
  by (simp add: hinv_def wf_store_def init_def)

lemma hinv_foldl: "hinv s \<Longrightarrow> hinv (foldl (step e) s ls)"
  by (induction ls arbitrary: s) (simp_all add: hinv_step)


subsection \<open>Counting the tests written\<close>

lemma emitted_Nil: "emitted e n [] = 0"
  by (simp add: emitted_def)

lemma emitted_append: "emitted e n (xs @ ys) = emitted e n xs + emitted e n ys"
  by (simp add: emitted_def)

lemma emitted_suite: "\<forall>ev \<in> set evs. isSuiteEvent ev \<Longrightarrow> emitted e n evs = 0"
proof (induction evs)
  case Nil
  then show ?case by (simp add: emitted_def)
next
  case (Cons ev evs)
  then show ?case by (cases ev) (simp_all add: emitted_def)
qed

lemma emitted_Print: "emitted e n [Print l] = 0"
  by (simp add: emitted_def)

lemma emitted_outputTest:
  "emitted e n (outputTest e now t) =
     (if escape (additionalTestName e @ Name t) = escape (additionalTestName e @ n) then 1 else 0)"
  by (simp add: emitted_def outputTest_def Let_def)

lemma escape_CR_as_NL: "escape (map (\<lambda>c. if c = CR then NL else c) n) = escape n"
  by (induction n) (simp_all add: escape_Nil escape_Cons esc_char_def)

lemma same_name:
  assumes "noSpace m"
  shows "escape (p @ m) = escape (p @ n) \<longleftrightarrow> m = n"
proof
  assume "escape (p @ m) = escape (p @ n)"
  then have eq: "escape m = escape (map (\<lambda>c. if c = CR then NL else c) n)"
    by (simp add: escape_append escape_CR_as_NL)
  from assms have m: "CR \<notin> set m" "NL \<notin> set m"
    by (auto simp: noSpace_def isSpace_def)
  have "CR \<notin> set (map (\<lambda>c. if c = CR then NL else c) n)"
    by auto
  with m(1) have mn: "m = map (\<lambda>c. if c = CR then NL else c) n"
    using eq by (rule escape_inject)
  with m(2) have "CR \<notin> set n"
    by auto
  then have "map (\<lambda>c. if c = CR then NL else c) n = n"
    by (intro map_idI) auto
  with mn show "m = n"
    by simp
next
  assume "m = n"
  then show "escape (p @ m) = escape (p @ n)"
    by simp
qed

lemma finishLoop_out:
  "\<exists>sevs ss'. finishLoop name j (ss, evs) = (ss', evs @ sevs) \<and> (\<forall>ev \<in> set sevs. isSuiteEvent ev)"
proof (induction j arbitrary: ss evs)
  case 0
  then show ?case by simp
next
  case (Suc j)
  show ?case
  proof (cases "HasPrefix name (ss ! j)")
    case True
    with Suc [of ss evs] show ?thesis by simp
  next
    case False
    from Suc [of "take j ss" "evs @ finishSuite (ss ! j)"]
    obtain sevs ss' where
      "finishLoop name j (take j ss, evs @ finishSuite (ss ! j)) =
         (ss', (evs @ finishSuite (ss ! j)) @ sevs)"
      and "\<forall>ev \<in> set sevs. isSuiteEvent ev"
      by blast
    with False show ?thesis
      by (intro exI [of _ "finishSuite (ss ! j) @ sevs"] exI [of _ ss'])
        (simp add: finishSuite_def)
  qed
qed

lemma finalize_w:
  "\<exists>sevs. (\<forall>ev \<in> set sevs. isSuiteEvent ev)
     \<and> w (finalize e a s) = w s @ sevs @ outputTest e (getNow e (clock s)) (heap s ! a)"
proof -
  from finishLoop_out [of "Name (heap s ! a)" "length (suites s)" "suites s" "w s"]
  obtain sevs ss' where
    fl: "finishLoop (Name (heap s ! a)) (length (suites s)) (suites s, w s) = (ss', w s @ sevs)"
    and sv: "\<forall>ev \<in> set sevs. isSuiteEvent ev"
    by blast
  show ?thesis
  proof (cases "Suite (heap s ! a)")
    case True
    with sv show ?thesis
      by (intro exI [of _ "sevs @ startSuite (Name (heap s ! a))"])
        (simp add: finalize_def fl Let_def emitTest_def startSuite_def)
  next
    case False
    with sv show ?thesis
      by (intro exI [of _ sevs]) (simp add: finalize_def fl Let_def emitTest_def)
  qed
qed

lemma pending_delete:
  assumes "hinv s" and "test s = Some a"
  shows "(if escape (additionalTestName e @ Name (heap s ! a)) = escape (additionalTestName e @ n)
          then 1 else 0)
         + (if map_of (AList.delete (Name (heap s ! a)) (tests s)) n = None then 0 else 1)
         = pending n s"
proof -
  from hinv_test [OF assms(1,2)] have m: "map_of (tests s) (Name (heap s ! a)) = Some a" .
  from hinvD(3) [OF assms(1) m] have "noSpace (Name (heap s ! a))" .
  then have "escape (additionalTestName e @ Name (heap s ! a))
        = escape (additionalTestName e @ n) \<longleftrightarrow> Name (heap s ! a) = n"
    by (rule same_name)
  with m show ?thesis
    by (auto simp: pending_def AList.delete_conv')
qed

lemma cnt_finalize:
  assumes "hinv s" and "test s = Some a"
  shows "cnt e n (finalize e a s) = cnt e n s"
proof -
  from finalize_w [of e a s] obtain sevs where
    sv: "\<forall>ev \<in> set sevs. isSuiteEvent ev"
    and wr: "w (finalize e a s) = w s @ sevs @ outputTest e (getNow e (clock s)) (heap s ! a)"
    by blast
  have "cnt e n (finalize e a s) = emitted e n (w s) +
      ((if escape (additionalTestName e @ Name (heap s ! a)) = escape (additionalTestName e @ n)
          then 1 else 0)
         + (if map_of (AList.delete (Name (heap s ! a)) (tests s)) n = None then 0 else 1))"
    by (simp add: cnt_def pending_def wr emitted_append emitted_suite [OF sv]
        emitted_outputTest finalize_frame)
  also have "\<dots> = cnt e n s"
    by (simp only: pending_delete [OF assms] cnt_def)
  finally show ?thesis .
qed

lemma cnt_finalizeIfEnded:
  "hinv s \<Longrightarrow> cnt e n (finalizeIfEnded e s line) = cnt e n s"
  by (simp add: finalizeIfEnded_def cnt_finalize split: option.splits)

lemma cnt_dispatch:
  "cnt e n (dispatch e s line) =
     (if nameOf line = Some n then emitted e n (w s) + 1 else cnt e n s)"
proof (cases "run line")
  case (Some x)
  then show ?thesis
    by (simp add: cnt_def pending_def dispatch_def split_beta newTest_frame nameOf_def
        AList.update_conv')
next
  case None
  note run = this
  show ?thesis
  proof (cases "end_re line")
    case (Some c)
    obtain ind status x dur where c: "c = (ind, status, x, dur)"
      by (cases c) auto
    with run Some show ?thesis
      by (cases "map_of (tests s) x")
        (auto simp: cnt_def pending_def dispatch_def split_beta newTest_frame nameOf_def
          AList.update_conv')
  next
    case None
    with run show ?thesis
      by (simp add: cnt_def pending_def dispatch_def nameOf_def emitted_append emitted_Print
          split: option.splits)
  qed
qed

lemma cnt_step:
  assumes "hinv s"
  shows "cnt e n (step e s line) =
     (if nameOf line = Some n then emitted e n (w (finalizeIfEnded e s line)) + 1 else cnt e n s)"
  by (simp add: step_def cnt_dispatch cnt_finalizeIfEnded [OF assms])

lemma cnt_step_le:
  assumes "hinv s"
  shows "cnt e n (step e s line) \<le> cnt e n s + (if nameOf line = Some n then 1 else 0)"
proof -
  have "emitted e n (w (finalizeIfEnded e s line)) \<le> cnt e n (finalizeIfEnded e s line)"
    by (simp add: cnt_def)
  then show ?thesis
    by (simp add: cnt_step [OF assms] cnt_finalizeIfEnded [OF assms])
qed

lemma cnt_bounds:
  "cnt e n (foldl (step e) init ls) \<le> named n ls
         \<and> (0 < named n ls \<longrightarrow> 0 < cnt e n (foldl (step e) init ls))"
proof (induction ls rule: rev_induct)
  case Nil
  then show ?case
    by (simp add: cnt_def pending_def emitted_def named_def init_def)
next
  case (snoc l ls)
  have h: "hinv (foldl (step e) init ls)"
    by (simp add: hinv_foldl hinv_init)
  from snoc cnt_step_le [OF h, of e n l] cnt_step [OF h, of e n l]
  show ?case
    by (auto simp: named_def split: if_splits)
qed

subsection \<open>The end of the stream\<close>

lemma mset_pick: "length xs \<le> m \<Longrightarrow> mset (pick m cs xs) = mset xs"
proof (induction m arbitrary: cs xs)
  case 0
  then show ?case by simp
next
  case (Suc m)
  show ?case
  proof (cases "xs = []")
    case True
    then show ?thesis by simp
  next
    case False
    define i where "i = (case cs of [] \<Rightarrow> 0 | c # _ \<Rightarrow> c mod length xs)"
    from False have i: "i < length xs"
      by (simp add: i_def split: list.splits)
    with Suc.prems have "length (take i xs @ drop (Suc i) xs) \<le> m"
      by simp
    then have "mset (pick m (drop 1 cs) (take i xs @ drop (Suc i) xs)) =
        mset (take i xs @ drop (Suc i) xs)"
      by (rule Suc.IH)
    moreover have "mset xs = mset (take i xs @ xs ! i # drop (Suc i) xs)"
      using id_take_nth_drop [OF i] by simp
    ultimately show ?thesis
      using False by (simp add: i_def [symmetric] Let_def)
  qed
qed

lemma mset_mapRange: "mset (mapRange cs xs) = mset xs"
  by (simp add: mapRange_def mset_pick)

lemma mapRange_complete: "mset ys = mset xs \<Longrightarrow> \<exists>cs. mapRange cs xs = ys"
proof (induction ys arbitrary: xs)
  case Nil
  then show ?case by (simp add: mapRange_def)
next
  case (Cons y ys)
  then have "y \<in> set xs"
    by (metis list.set_intros(1) set_mset_mset)
  then obtain i where i: "i < length xs" and y: "xs ! i = y"
    by (auto simp: in_set_conv_nth)
  have xs: "xs = take i xs @ y # drop (Suc i) xs"
    using id_take_nth_drop [OF i] y by simp
  have "mset xs = add_mset y (mset (take i xs @ drop (Suc i) xs))"
    by (subst xs) simp
  with Cons.prems have "mset ys = mset (take i xs @ drop (Suc i) xs)"
    by simp
  from Cons.IH [OF this] obtain cs where
    cs: "mapRange cs (take i xs @ drop (Suc i) xs) = ys"
    by blast
  from i have len: "length (take i xs @ drop (Suc i) xs) = length xs - 1"
    by simp
  from i have ne: "xs \<noteq> []"
    by auto
  from i obtain m where m: "length xs = Suc m"
    by (cases "length xs") auto
  have "mapRange (i # cs) xs = y # ys"
    using cs i y ne len by (simp add: mapRange_def m)
  then show ?case
    by blast
qed

lemma emitted_fold_emitTest:
  "emitted e n (w (fold (\<lambda>(k, a) s. emitTest e a s) xs s)) =
     emitted e n (w s)
     + length (filter (\<lambda>(k, a). escape (additionalTestName e @ Name (heap s ! a))
                                   = escape (additionalTestName e @ n)) xs)"
proof (induction xs arbitrary: s)
  case Nil
  then show ?case by simp
next
  case (Cons x xs)
  obtain k a where x: "x = (k, a)"
    by (cases x) auto
  show ?case
    unfolding x by (simp add: Cons.IH emitTest_frame emitted_append emitted_outputTest)
qed

lemma count_key:
  "distinct (map fst ts) \<Longrightarrow>
   length (filter (\<lambda>(k, a). k = n) ts) = (if map_of ts n = None then 0 else 1)"
proof (induction ts)
  case Nil
  then show ?case by simp
next
  case (Cons x ts)
  then show ?case
    by (cases x) (auto simp: map_of_eq_None_iff image_iff)
qed

lemma emitted_range:
  assumes "wf_store h ts t" and "mset xs = mset ts"
  shows "length (filter (\<lambda>(k, a). escape (p @ Name (h ! a)) = escape (p @ n)) xs) =
     (if map_of ts n = None then 0 else 1)"
proof -
  from assms(1) have d: "distinct (map fst ts)"
    by (simp add: wf_store_def)
  have "filter (\<lambda>(k, a). escape (p @ Name (h ! a)) = escape (p @ n)) xs =
      filter (\<lambda>(k, a). k = n) xs"
  proof (rule filter_cong [OF refl])
    fix x assume "x \<in> set xs"
    with assms(2) have x: "x \<in> set ts"
      by (metis set_mset_mset)
    obtain k a where ka: "x = (k, a)"
      by (cases x) auto
    with x d have "map_of ts k = Some a"
      by simp
    with assms(1) have "Name (h ! a) = k" and "noSpace k"
      by (simp_all add: wf_store_def)
    with ka
    show "(case x of (k, a) \<Rightarrow> escape (p @ Name (h ! a)) = escape (p @ n)) =
        (case x of (k, a) \<Rightarrow> k = n)"
      by (simp add: same_name)
  qed
  moreover have "length (filter (\<lambda>(k, a). k = n) xs) = length (filter (\<lambda>(k, a). k = n) ts)"
  proof -
    have "mset (filter (\<lambda>(k, a). k = n) xs) = mset (filter (\<lambda>(k, a). k = n) ts)"
      by (simp only: mset_filter assms(2))
    then show ?thesis
      by (rule mset_eq_length)
  qed
  ultimately show ?thesis
    using count_key [OF d, of n] by simp
qed

lemma wf_store_None: "wf_store h ts t \<Longrightarrow> wf_store h ts None"
  by (simp add: wf_store_def)

lemma wf_store_delete: "wf_store h ts t \<Longrightarrow> wf_store h (AList.delete k ts) None"
  by (simp add: wf_store_def AList.distinct_delete AList.delete_conv')

lemma emitted_flush:
  assumes "hinv s"
  shows "emitted e n (flush e s) = cnt e n s"
proof -
  define s1 where "s1 =
    (case test s of
       None \<Rightarrow> s
     | Some a \<Rightarrow> (emitTest e a s)\<lparr>tests := AList.delete (Name (heap s ! a)) (tests s)\<rparr>)"
  define s2 where "s2 = s1\<lparr>w := w s1 @ concat (map finishSuite (rev (suites s1)))\<rparr>"
  have fl: "flush e s =
      w (fold (\<lambda>(k, a) s. emitTest e a s) (mapRange (rangeSeed e) (tests s2)) s2)
        @ [Print (final (fold (\<lambda>(k, a) s. emitTest e a s) (mapRange (rangeSeed e) (tests s2)) s2))]"
    by (simp add: flush_def s1_def s2_def Let_def emitTest_frame split: option.splits)
  have c1: "cnt e n s1 = cnt e n s"
  proof (cases "test s")
    case None
    then show ?thesis by (simp add: s1_def)
  next
    case (Some a)
    from pending_delete [OF assms Some, of e n] Some show ?thesis
      by (simp add: s1_def cnt_def emitTest_frame emitted_append emitted_outputTest pending_def)
  qed
  from assms have "wf_store (heap s) (tests s) (test s)"
    by (simp add: hinv_def)
  then have wf1: "wf_store (heap s1) (tests s1) None"
    by (cases "test s") (simp_all add: s1_def emitTest_frame wf_store_None wf_store_delete)
  have h2: "heap s2 = heap s1" "tests s2 = tests s1"
    by (simp_all add: s2_def)
  have e2: "emitted e n (w s2) = emitted e n (w s1)"
    by (simp add: s2_def emitted_append concat_finishSuite emitted_suite)
  have "emitted e n (flush e s) =
      emitted e n (w s2)
      + length (filter (\<lambda>(k, a). escape (additionalTestName e @ Name (heap s2 ! a))
                                   = escape (additionalTestName e @ n))
                  (mapRange (rangeSeed e) (tests s2)))"
    by (simp add: fl emitted_append emitted_Print emitted_fold_emitTest)
  also have "\<dots> = emitted e n (w s1) + (if map_of (tests s1) n = None then 0 else 1)"
    unfolding h2 e2 by (simp only: emitted_range [OF wf1 mset_mapRange])
  also have "\<dots> = cnt e n s"
    using c1 by (simp add: cnt_def pending_def)
  finally show ?thesis .
qed


lemma emitted_processReader:
  "emitted e n (processReader e r) = cnt e n (foldl (step e) init (linesRead r))"
  by (simp add: processReader_def loop_fold emitted_flush hinv_foldl hinv_init)

subsection \<open>An end line whose duration does not parse\<close>

lemma end_not_run: "end_re line = Some c \<Longrightarrow> run line = None"
proof (cases line)
  case Nil
  then show ?thesis by (simp add: regex_defs)
next
  case (Cons x xs)
  assume "end_re line = Some c"
  show ?thesis
  proof (cases "x = CHR ''=''")
    case True
    with Cons \<open>end_re line = Some c\<close> show ?thesis
      by (simp add: end_re_def stripPrefix_def HasPrefix_def isSpace_def)
  next
    case False
    with Cons show ?thesis
      by (simp add: run_def stripPrefix_def HasPrefix_def)
  qed
qed

lemma end_re_status: "end_re line = Some (ind, status, n, d) \<Longrightarrow> status \<noteq> []"
  by (auto simp: end_re_def Let_def split: option.splits if_splits)

lemma dispatch_end:
  assumes "hinv s" and "end_re line = Some (ind, status, name, dur)"
  shows "\<exists>a. test (dispatch e s line) = Some a
     \<and> a < length (heap (dispatch e s line))
     \<and> heap (dispatch e s line) ! a =
         (heap (dispatch e s line) ! a)
           \<lparr>Name := name, Status := status, Duration := fst (ParseDuration e dur)\<rparr>"
proof -
  have run: "run line = None"
    using assms(2) by (rule end_not_run)
  show ?thesis
  proof (cases "map_of (tests s) name")
    case None
    have "Name (heap (snd (newTest e name s)) ! length (heap s)) = name"
      by (simp add: newTest_Name)
    with run assms(2) None show ?thesis
      by (simp add: dispatch_def split_beta newTest_frame)
  next
    case (Some a)
    from hinvD(1,2) [OF assms(1) Some] run assms(2) Some show ?thesis
      by (simp add: dispatch_def)
  qed
qed

lemma step_end:
  assumes "hinv s" and "end_re line = Some (ind, status, name, dur)"
  shows "\<exists>a. test (step e s line) = Some a
     \<and> a < length (heap (step e s line))
     \<and> heap (step e s line) ! a =
         (heap (step e s line) ! a)
           \<lparr>Name := name, Status := status, Duration := fst (ParseDuration e dur)\<rparr>"
  unfolding step_def
  using dispatch_end [OF hinv_finalizeIfEnded [OF assms(1)] assms(2)] .

lemma step_keep:
  assumes "test s = Some a" and "a < length (heap s)"
    and "run l = None" and "end_re l = None" and "\<not> pkg l"
  shows "test (step e s l) = Some a" and "w (step e s l) = w s"
    and "length (heap (step e s l)) = length (heap s)"
    and "Name (heap (step e s l) ! a) = Name (heap s ! a)"
    and "Status (heap (step e s l) ! a) = Status (heap s ! a)"
    and "Duration (heap (step e s l) ! a) = Duration (heap s ! a)"
  using assms by (simp_all add: step_def finalizeIfEnded_def dispatch_def)

lemma finalizeIfEnded_w:
  "\<exists>evs. w (finalizeIfEnded e s l) = w s @ evs"
proof (cases "finalizeIfEnded e s l = s")
  case True
  then show ?thesis by simp
next
  case False
  then obtain a where "finalizeIfEnded e s l = finalize e a s"
    by (auto simp: finalizeIfEnded_def split: option.splits if_splits)
  with finalize_w [of e a s] show ?thesis
    by auto
qed

lemma step_w: "\<exists>evs. w (step e s l) = w s @ evs"
  using finalizeIfEnded_w [of e s l] by (auto simp: step_def dispatch_frame)

lemma foldl_step_w: "\<exists>evs. w (foldl (step e) s ls) = w s @ evs"
proof (induction ls arbitrary: s)
  case Nil
  then show ?case by simp
next
  case (Cons l ls)
  from Cons [of "step e s l"] step_w [of e s l] show ?case
    by auto
qed

lemma fold_emitTest_w: "\<exists>evs. w (fold (\<lambda>(k, a) s. emitTest e a s) xs s) = w s @ evs"
proof (induction xs arbitrary: s)
  case Nil
  then show ?case by simp
next
  case (Cons x xs)
  obtain k a where x: "x = (k, a)"
    by (cases x) auto
  from Cons [of "emitTest e a s"] show ?case
    by (auto simp: x emitTest_frame)
qed

lemma flush_w: "\<exists>evs. flush e s = w s @ evs"
proof -
  define s1 where "s1 =
    (case test s of
       None \<Rightarrow> s
     | Some a \<Rightarrow> (emitTest e a s)\<lparr>tests := AList.delete (Name (heap s ! a)) (tests s)\<rparr>)"
  define s2 where "s2 = s1\<lparr>w := w s1 @ concat (map finishSuite (rev (suites s1)))\<rparr>"
  have fl: "flush e s =
      w (fold (\<lambda>(k, a) s. emitTest e a s) (mapRange (rangeSeed e) (tests s2)) s2)
        @ [Print (final (fold (\<lambda>(k, a) s. emitTest e a s) (mapRange (rangeSeed e) (tests s2)) s2))]"
    by (simp add: flush_def s1_def s2_def Let_def emitTest_frame split: option.splits)
  have "\<exists>evs. w s1 = w s @ evs"
    by (simp add: s1_def emitTest_frame split: option.splits)
  then have "\<exists>evs. w s2 = w s @ evs"
    by (auto simp: s2_def)
  with fold_emitTest_w [of e "mapRange (rangeSeed e) (tests s2)" s2] show ?thesis
    by (auto simp: fl)
qed

lemma flush_current:
  assumes "test s = Some a"
  shows "\<exists>evs. flush e s = w s @ outputTest e (getNow e (clock s)) (heap s ! a) @ evs"
proof -
  define s1 where "s1 = (emitTest e a s)\<lparr>tests := AList.delete (Name (heap s ! a)) (tests s)\<rparr>"
  define s2 where "s2 = s1\<lparr>w := w s1 @ concat (map finishSuite (rev (suites s1)))\<rparr>"
  have fl: "flush e s =
      w (fold (\<lambda>(k, a) s. emitTest e a s) (mapRange (rangeSeed e) (tests s2)) s2)
        @ [Print (final (fold (\<lambda>(k, a) s. emitTest e a s) (mapRange (rangeSeed e) (tests s2)) s2))]"
    using assms by (simp add: flush_def s1_def s2_def Let_def emitTest_frame)
  have "\<exists>evs. w s2 = w s @ outputTest e (getNow e (clock s)) (heap s ! a) @ evs"
    by (simp add: s2_def s1_def emitTest_frame)
  with fold_emitTest_w [of e "mapRange (rangeSeed e) (tests s2)" s2] show ?thesis
    by (auto simp: fl)
qed

lemma step_boundary:
  assumes "test s = Some a" and "Status (heap s ! a) \<noteq> []"
    and "run l \<noteq> None \<or> end_re l \<noteq> None \<or> pkg l"
  shows "\<exists>sevs evs. (\<forall>ev \<in> set sevs. isSuiteEvent ev)
     \<and> w (step e s l) = w s @ sevs @ outputTest e (getNow e (clock s)) (heap s ! a) @ evs"
proof -
  from assms have "finalizeIfEnded e s l = finalize e a s"
    by (simp add: finalizeIfEnded_def)
  with finalize_w [of e a s] show ?thesis
    by (auto simp: step_def dispatch_frame)
qed

lemma current_is_written:
  assumes "test s = Some a" and "a < length (heap s)" and "Status (heap s ! a) \<noteq> []"
  shows "\<exists>sevs now t evs.
     flush e (foldl (step e) s ls) = w s @ sevs @ outputTest e now t @ evs
     \<and> (\<forall>ev \<in> set sevs. isSuiteEvent ev)
     \<and> Name t = Name (heap s ! a) \<and> Status t = Status (heap s ! a)
     \<and> Duration t = Duration (heap s ! a)"
  using assms
proof (induction ls arbitrary: s)
  case Nil
  from flush_current [OF Nil(1), of e] obtain evs where
    "flush e s = w s @ outputTest e (getNow e (clock s)) (heap s ! a) @ evs"
    by blast
  then show ?case
    by (intro exI [of _ "[]"] exI [of _ "getNow e (clock s)"] exI [of _ "heap s ! a"]
        exI [of _ evs]) simp
next
  case (Cons l ls)
  show ?case
  proof (cases "run l \<noteq> None \<or> end_re l \<noteq> None \<or> pkg l")
    case True
    from step_boundary [OF Cons.prems(1,3) True, of e] obtain sevs evs where
      sv: "\<forall>ev \<in> set sevs. isSuiteEvent ev"
      and wr: "w (step e s l) = w s @ sevs @ outputTest e (getNow e (clock s)) (heap s ! a) @ evs"
      by blast
    from foldl_step_w [of e "step e s l" ls] flush_w [of e "foldl (step e) (step e s l) ls"]
    obtain evs' where "flush e (foldl (step e) (step e s l) ls) = w (step e s l) @ evs'"
      by auto
    with sv wr show ?thesis
      by (intro exI [of _ sevs] exI [of _ "getNow e (clock s)"] exI [of _ "heap s ! a"]
          exI [of _ "evs @ evs'"]) simp
  next
    case False
    then have nb: "run l = None" "end_re l = None" "\<not> pkg l"
      by (cases "end_re l"; simp)+
    note keep = step_keep [OF Cons.prems(1,2) nb, of e]
    have "\<exists>sevs now t evs.
       flush e (foldl (step e) (step e s l) ls) = w (step e s l) @ sevs @ outputTest e now t @ evs
       \<and> (\<forall>ev \<in> set sevs. isSuiteEvent ev)
       \<and> Name t = Name (heap (step e s l) ! a) \<and> Status t = Status (heap (step e s l) ! a)
       \<and> Duration t = Duration (heap (step e s l) ! a)"
      using Cons.prems(3) by (intro Cons.IH) (simp_all add: keep Cons.prems(2))
    then show ?thesis
      by (simp add: keep)
  qed
qed

text \<open>
  Claim C9. Go's \<^verbatim>\<open>time.ParseDuration\<close> returns the zero duration together with every
  error. When the duration text of an end line does not parse, the loop goes on with the
  lines after it, the record of the line is current with the status of the line and the
  duration zero, and it is the next test written: with these values, after what was
  written before and suite events only. Its \<^verbatim>\<open>testFinished\<close> event, which exists unless
  the status is SKIP, has the duration 0.
\<close>

theorem bad_duration_is_zero:
  assumes "linesRead r = pre @ line # post"
    and "end_re line = Some (ind, status, name, dur)"
    and "snd (ParseDuration e dur)"
    and "\<forall>d. snd (ParseDuration e d) \<longrightarrow> fst (ParseDuration e d) = 0"
  shows "loop e init r = foldl (step e) (foldl (step e) init (pre @ [line])) post
     \<and> (\<exists>a. test (foldl (step e) init (pre @ [line])) = Some a
           \<and> Name (heap (foldl (step e) init (pre @ [line])) ! a) = name
           \<and> Status (heap (foldl (step e) init (pre @ [line])) ! a) = status
           \<and> Duration (heap (foldl (step e) init (pre @ [line])) ! a) = 0)
     \<and> (\<exists>sevs now t evs.
           processReader e r =
             w (foldl (step e) init (pre @ [line])) @ sevs @ outputTest e now t @ evs
           \<and> (\<forall>ev \<in> set sevs. isSuiteEvent ev)
           \<and> Name t = name \<and> Status t = status \<and> Duration t = 0
           \<and> (status \<noteq> ''SKIP'' \<longrightarrow>
                TestFinished now (escape (additionalTestName e @ name)) 0
                  \<in> set (outputTest e now t)))"
proof -
  let ?s0 = "foldl (step e) init pre"
  let ?s1 = "foldl (step e) init (pre @ [line])"
  have s1: "?s1 = step e ?s0 line"
    by simp
  have h0: "hinv ?s0"
    by (simp add: hinv_foldl hinv_init)
  from assms(3,4) have zero: "fst (ParseDuration e dur) = 0"
    by blast
  from step_end [OF h0 assms(2), of e] obtain a where
    t: "test ?s1 = Some a" and a: "a < length (heap ?s1)"
    and rec: "heap ?s1 ! a =
      (heap ?s1 ! a)\<lparr>Name := name, Status := status, Duration := fst (ParseDuration e dur)\<rparr>"
    unfolding s1 by blast
  have nm: "Name (heap ?s1 ! a) = name"
    by (subst rec) simp
  have st: "Status (heap ?s1 ! a) = status"
    by (subst rec) simp
  have du: "Duration (heap ?s1 ! a) = 0"
    by (subst rec) (simp add: zero)
  have ne: "Status (heap ?s1 ! a) \<noteq> []"
    using end_re_status [OF assms(2)] st by simp
  have lp: "loop e init r = foldl (step e) ?s1 post"
    by (simp add: loop_fold assms(1))
  from current_is_written [OF t a ne, of e post] obtain sevs now t' evs where
    fl: "flush e (foldl (step e) ?s1 post) = w ?s1 @ sevs @ outputTest e now t' @ evs"
    and sv: "\<forall>ev \<in> set sevs. isSuiteEvent ev"
    and t': "Name t' = name" "Status t' = status" "Duration t' = 0"
    unfolding nm st du by blast
  have fin: "status \<noteq> ''SKIP'' \<longrightarrow>
      TestFinished now (escape (additionalTestName e @ name)) 0 \<in> set (outputTest e now t')"
    by (simp add: outputTest_def Let_def t')
  have "\<exists>sevs now t evs.
           processReader e r = w ?s1 @ sevs @ outputTest e now t @ evs
           \<and> (\<forall>ev \<in> set sevs. isSuiteEvent ev)
           \<and> Name t = name \<and> Status t = status \<and> Duration t = 0
           \<and> (status \<noteq> ''SKIP'' \<longrightarrow>
                TestFinished now (escape (additionalTestName e @ name)) 0
                  \<in> set (outputTest e now t))"
    using fl sv t' fin unfolding processReader_def lp by blast
  with lp t nm st du show ?thesis
    by blast
qed

theorem bad_duration_is_zero_witness:
  "linesRead (''=== RUN A'' @ [NL] @ ''--- FAIL: A (5)'' @ [NL] @ ''=== RUN B'' @ [NL]) =
     [''=== RUN A'' @ [NL]] @ (''--- FAIL: A (5)'' @ [NL]) # [''=== RUN B'' @ [NL]]
   \<and> end_re (''--- FAIL: A (5)'' @ [NL]) = Some ([], ''FAIL'', ''A'', ''5'')
   \<and> snd (ParseDuration env0 ''5'')
   \<and> processReader env0 (''=== RUN A'' @ [NL] @ ''--- FAIL: A (5)'' @ [NL] @ ''=== RUN B'' @ [NL]) =
      [TestStarted [] ''A'', Print [], TestFailed ''I'' ''A'' None [], TestFinished ''I'' ''A'' 0,
       TestStarted ''II'' ''B'', Print [],
       TestFailed ''III'' ''B'' (Some ''Test ended in panic.'') [],
       TestFinished ''III'' ''B'' 0, Print []]"
  using bad_duration_is_zero [of
      "''=== RUN A'' @ [NL] @ ''--- FAIL: A (5)'' @ [NL] @ ''=== RUN B'' @ [NL]"
      "[''=== RUN A'' @ [NL]]" "''--- FAIL: A (5)'' @ [NL]" "[''=== RUN B'' @ [NL]]"
      "[]" "''FAIL''" "''A''" "''5''" env0]
  by (simp add: outputTest_def env0_def reader_defs regex_defs escape_eval)


subsection \<open>The records of one name\<close>

lemma Status_list_update: "Status (h[p := (h ! p)\<lparr>Suite := b\<rparr>] ! i) = Status (h ! i)"
  by (cases "p < length h"; cases "i = p") (simp_all add: list_update_beyond)

lemma markSuites_Status: "Status (markSuites ts n h ! i) = Status (h ! i)"
proof (induction ts n h rule: markSuites.induct)
  case (1 ts n h)
  show ?case
  proof (cases "n = []")
    case True
    then show ?thesis by (subst markSuites.simps) simp
  next
    case False
    then show ?thesis
      using "1.IH" by (subst markSuites.simps) (simp add: Status_list_update split: option.splits)
  qed
qed

lemma newTest_Status:
  "i \<le> length (heap s) \<Longrightarrow>
   Status (heap (snd (newTest e x s)) ! i) = (if i = length (heap s) then [] else Status (heap s ! i))"
  by (simp add: newTest_def Let_def markSuites_Status nth_append)

lemma cinvD: "cinv s \<Longrightarrow> map_of (tests s) k = Some a \<Longrightarrow> Status (heap s ! a) \<noteq> [] \<Longrightarrow> test s = Some a"
  by (simp add: cinv_def ended_current_def)

lemma none_endedD: "none_ended s \<Longrightarrow> map_of (tests s) k = Some a \<Longrightarrow> Status (heap s ! a) = []"
  by (simp add: none_ended_def)

lemma view_Ended:
  "view n s = Ended \<longleftrightarrow> (\<exists>a. map_of (tests s) n = Some a \<and> Status (heap s ! a) \<noteq> [])"
  by (simp add: view_def split: option.splits)

lemma view_Absent: "view n s = Absent \<longleftrightarrow> map_of (tests s) n = None"
  by (simp add: view_def split: option.splits)

text \<open>The first part of the loop body.\<close>

lemma finalize_view:
  assumes "hinv s" and "cinv s" and "test s = Some a" and "Status (heap s ! a) \<noteq> []"
  shows "view n (finalize e a s) = (if view n s = Ended then Absent else view n s)"
    and "emitted e n (w (finalize e a s)) =
          (if view n s = Ended then Suc (emitted e n (w s)) else emitted e n (w s))"
    and "none_ended (finalize e a s)"
proof -
  let ?m = "Name (heap s ! a)"
  from hinv_test [OF assms(1,3)] have m: "map_of (tests s) ?m = Some a" .
  have ended: "view n s = Ended \<longleftrightarrow> n = ?m"
  proof
    assume "view n s = Ended"
    then obtain a' where a': "map_of (tests s) n = Some a'" "Status (heap s ! a') \<noteq> []"
      by (auto simp: view_Ended)
    from cinvD [OF assms(2) a'] assms(3) have "a' = a"
      by simp
    with hinvD(2) [OF assms(1) a'(1)] show "n = ?m"
      by simp
  next
    assume "n = ?m"
    with m assms(4) show "view n s = Ended"
      by (auto simp: view_Ended)
  qed
  show "view n (finalize e a s) = (if view n s = Ended then Absent else view n s)"
    using ended by (simp add: view_def finalize_frame AList.delete_conv' split: option.splits)
  from hinvD(3) [OF assms(1) m] have "noSpace ?m" .
  then have sn: "escape (additionalTestName e @ ?m) = escape (additionalTestName e @ n) \<longleftrightarrow> ?m = n"
    by (rule same_name)
  from finalize_w [of e a s] obtain sevs where
    sv: "\<forall>ev \<in> set sevs. isSuiteEvent ev"
    and wr: "w (finalize e a s) = w s @ sevs @ outputTest e (getNow e (clock s)) (heap s ! a)"
    by blast
  show "emitted e n (w (finalize e a s)) =
          (if view n s = Ended then Suc (emitted e n (w s)) else emitted e n (w s))"
    using ended sn
    by (auto simp: wr emitted_append emitted_suite [OF sv] emitted_outputTest)
  show "none_ended (finalize e a s)"
    unfolding none_ended_def
  proof (intro allI impI)
    fix k a' assume "map_of (tests (finalize e a s)) k = Some a'"
    then have k: "k \<noteq> ?m" and a': "map_of (tests s) k = Some a'"
      by (auto simp: finalize_frame AList.delete_conv' split: if_splits)
    show "Status (heap (finalize e a s) ! a') = []"
    proof (rule ccontr)
      assume "Status (heap (finalize e a s) ! a') \<noteq> []"
      then have "Status (heap s ! a') \<noteq> []"
        by (simp add: finalize_frame)
      from cinvD [OF assms(2) a' this] assms(3) have "a' = a"
        by simp
      with hinvD(2) [OF assms(1) a'] k show False
        by simp
    qed
  qed
qed

lemma none_ended_cinv: "none_ended s \<Longrightarrow> cinv s"
  by (simp add: none_ended_def cinv_def ended_current_def)

lemma finalizeIfEnded_view:
  assumes "hinv s" and "cinv s"
  shows "view n (finalizeIfEnded e s l) =
          (if view n s = Ended \<and> boundary l then Absent else view n s)
    \<and> emitted e n (w (finalizeIfEnded e s l)) =
          (if view n s = Ended \<and> boundary l then Suc (emitted e n (w s)) else emitted e n (w s))
    \<and> cinv (finalizeIfEnded e s l)
    \<and> (boundary l \<longrightarrow> none_ended (finalizeIfEnded e s l))"
proof (cases "\<exists>a. test s = Some a \<and> Status (heap s ! a) \<noteq> [] \<and> boundary l")
  case True
  then obtain a where a: "test s = Some a" "Status (heap s ! a) \<noteq> []" and b: "boundary l"
    by blast
  then have f: "finalizeIfEnded e s l = finalize e a s"
    by (simp add: finalizeIfEnded_def boundary_def)
  note fv = finalize_view [OF assms a]
  show ?thesis
    by (simp add: f fv b none_ended_cinv)
next
  case False
  then have f: "finalizeIfEnded e s l = s"
    by (auto simp: finalizeIfEnded_def boundary_def split: option.splits)
  have ne: "\<not> (view n s = Ended \<and> boundary l)" for n
  proof
    assume v: "view n s = Ended \<and> boundary l"
    then obtain a' where a': "map_of (tests s) n = Some a'" "Status (heap s ! a') \<noteq> []"
      by (auto simp: view_Ended)
    from cinvD [OF assms(2) a'] a'(2) v False show False
      by blast
  qed
  have "none_ended s" if b: "boundary l"
    unfolding none_ended_def
  proof (intro allI impI)
    fix k a assume k: "map_of (tests s) k = Some a"
    show "Status (heap s ! a) = []"
    proof (rule ccontr)
      assume "Status (heap s ! a) \<noteq> []"
      with k have "view k s = Ended"
        by (auto simp: view_Ended)
      with b ne [of k] show False
        by simp
    qed
  qed
  with ne [of n] assms(2) show ?thesis
    by (simp add: f)
qed

text \<open>The second part of the loop body.\<close>

lemma Status_update_same:
  "Status v = Status (h ! a) \<Longrightarrow> Status (h[a := v] ! i) = Status (h ! i)"
  by (cases "a < length h"; cases "i = a") (simp_all add: list_update_beyond)

lemma dispatch_emitted: "emitted e n (w (dispatch e s l)) = emitted e n (w s)"
  by (simp add: dispatch_frame emitted_append emitted_Print emitted_Nil)

lemma dispatch_run_view:
  assumes "hinv s" and "none_ended s" and "run l = Some x"
  shows "view n (dispatch e s l) = (if n = x then Started else view n s)
    \<and> none_ended (dispatch e s l)"
proof -
  let ?s1 = "snd (newTest e x s)"
  have d: "dispatch e s l = ?s1\<lparr>test := Some (fst (newTest e x s))\<rparr>"
    using assms(3) by (simp add: dispatch_def split_beta)
  have st: "Status (heap ?s1 ! a) = []" if "map_of (tests ?s1) k = Some a" for k a
  proof (cases "k = x")
    case True
    with that show ?thesis
      by (simp add: newTest_frame newTest_Status AList.update_conv')
  next
    case False
    with that have k: "map_of (tests s) k = Some a"
      by (simp add: newTest_frame AList.update_conv')
    from hinvD(1) [OF assms(1) k] none_endedD [OF assms(2) k] show ?thesis
      by (simp add: newTest_Status)
  qed
  have v: "view n (dispatch e s l) = (if n = x then Started else view n s)"
  proof (cases "n = x")
    case True
    then show ?thesis
      by (simp add: d view_def newTest_frame newTest_Status AList.update_conv')
  next
    case False
    show ?thesis
    proof (cases "map_of (tests s) n")
      case None
      with False show ?thesis
        by (simp add: d view_def newTest_frame AList.update_conv')
    next
      case (Some a)
      from hinvD(1) [OF assms(1) Some] Some False show ?thesis
        by (simp add: d view_def newTest_frame newTest_Status AList.update_conv')
    qed
  qed
  have "none_ended (dispatch e s l)"
    unfolding none_ended_def d using st by simp
  with v show ?thesis
    by simp
qed

lemma dispatch_end_view:
  assumes "hinv s" and "none_ended s" and "run l = None"
    and "end_re l = Some (ind, status, x, dur)"
  shows "view n (dispatch e s l) = (if n = x then Ended else view n s)
    \<and> cinv (dispatch e s l)"
proof -
  have ne: "status \<noteq> []"
    using assms(4) by (rule end_re_status)
  show ?thesis
  proof (cases "map_of (tests s) x")
    case (Some a)
    let ?h = "(heap s)[a := (heap s ! a)\<lparr>Status := status, Duration := fst (ParseDuration e dur)\<rparr>]"
    have d: "dispatch e s l = s\<lparr>test := Some a, prefix := ind @ [TAB], heap := ?h\<rparr>"
      using assms(3,4) Some by (simp add: dispatch_def)
    from hinvD(1,2) [OF assms(1) Some] have a: "a < length (heap s)" "Name (heap s ! a) = x" .
    have oth: "a' = a" if "map_of (tests s) k = Some a'" "Status (?h ! a') \<noteq> []" for k a'
    proof (rule ccontr)
      assume "a' \<noteq> a"
      with none_endedD [OF assms(2) that(1)] that(2) show False
        by simp
    qed
    have v: "view n (dispatch e s l) = (if n = x then Ended else view n s)"
    proof (cases "n = x")
      case True
      with Some a ne show ?thesis
        by (simp add: d view_def)
    next
      case False
      show ?thesis
      proof (cases "map_of (tests s) n")
        case None
        with False show ?thesis
          by (simp add: d view_def)
      next
        case (Some a')
        from hinvD(2) [OF assms(1) Some] a(2) False have "a' \<noteq> a"
          by auto
        with Some False show ?thesis
          by (simp add: d view_def)
      qed
    qed
    have "ended_current ?h (tests s) (Some a)"
      unfolding ended_current_def
    proof (intro allI impI)
      fix k a' assume "map_of (tests s) k = Some a'" and "Status (?h ! a') \<noteq> []"
      then show "Some a = Some a'"
        using oth [of k a'] by simp
    qed
    then have "cinv (dispatch e s l)"
      by (simp add: cinv_def d)
    with v show ?thesis
      by simp
  next
    case None
    let ?s1 = "snd (newTest e x s)"
    let ?a = "length (heap s)"
    let ?h = "(heap ?s1)[?a := (heap ?s1 ! ?a)\<lparr>Status := status, Duration := fst (ParseDuration e dur)\<rparr>]"
    have d: "dispatch e s l = ?s1\<lparr>test := Some ?a, prefix := ind @ [TAB], heap := ?h\<rparr>"
      using assms(3,4) None by (simp add: dispatch_def split_beta newTest_frame)
    have len: "?a < length (heap ?s1)"
      by (simp add: newTest_frame)
    have oth: "a' = ?a" if "map_of (tests ?s1) k = Some a'" "Status (?h ! a') \<noteq> []" for k a'
    proof (rule ccontr)
      assume na: "a' \<noteq> ?a"
      with that(1) have k: "map_of (tests s) k = Some a'"
        by (auto simp: newTest_frame AList.update_conv' split: if_splits)
      from hinvD(1) [OF assms(1) k] none_endedD [OF assms(2) k] na that(2) show False
        by (simp add: newTest_Status)
    qed
    have v: "view n (dispatch e s l) = (if n = x then Ended else view n s)"
    proof (cases "n = x")
      case True
      with len ne show ?thesis
        by (simp add: d view_def newTest_frame AList.update_conv')
    next
      case False
      show ?thesis
      proof (cases "map_of (tests s) n")
        case None
        with False show ?thesis
          by (simp add: d view_def newTest_frame AList.update_conv')
      next
        case (Some a')
        from hinvD(1) [OF assms(1) Some] have "a' < ?a" .
        with Some False show ?thesis
          by (simp add: d view_def newTest_frame newTest_Status AList.update_conv')
      qed
    qed
    have "ended_current ?h (tests ?s1) (Some ?a)"
      unfolding ended_current_def
    proof (intro allI impI)
      fix k a' assume "map_of (tests ?s1) k = Some a'" and "Status (?h ! a') \<noteq> []"
      then show "Some ?a = Some a'"
        using oth [of k a'] by simp
    qed
    then have "cinv (dispatch e s l)"
      by (simp add: cinv_def d)
    with v show ?thesis
      by simp
  qed
qed

lemma dispatch_other_view:
  assumes "cinv s" and "run l = None" and "end_re l = None"
  shows "view n (dispatch e s l) = view n s \<and> cinv (dispatch e s l)"
proof (cases "pkg l \<or> test s = None")
  case True
  with assms show ?thesis
    by (auto simp: dispatch_def view_def cinv_def split: option.splits)
next
  case False
  then obtain a where a: "test s = Some a" and p: "\<not> pkg l"
    by auto
  have upd: "view n (s\<lparr>heap := (heap s)[a := v]\<rparr>) = view n s"
    "cinv (s\<lparr>heap := (heap s)[a := v]\<rparr>)" if "Status v = Status (heap s ! a)" for v
    using assms(1) a
    by (simp_all add: view_def cinv_def ended_current_def Status_update_same [OF that]
        split: option.splits)
  from assms(2,3) a p show ?thesis
    by (simp add: dispatch_def upd)
qed

lemma step_track:
  assumes "hinv s" and "cinv s"
  shows "(view n (step e s l), emitted e n (w (step e s l))) =
           track n (view n s, emitted e n (w s)) l
    \<and> cinv (step e s l)"
proof -
  let ?s1 = "finalizeIfEnded e s l"
  note f = finalizeIfEnded_view [OF assms, of n e l]
  have h1: "hinv ?s1"
    using assms(1) by (rule hinv_finalizeIfEnded)
  from f have c1: "cinv ?s1"
    by simp
  show ?thesis
  proof (cases "run l")
    case (Some x)
    then have b: "boundary l"
      by (simp add: boundary_def)
    with f have "none_ended ?s1"
      by simp
    from dispatch_run_view [OF h1 this Some, of n e] f b Some show ?thesis
      by (auto simp: step_def track_def dispatch_emitted nameOf_def none_ended_cinv Let_def)
  next
    case None
    note run = this
    show ?thesis
    proof (cases "end_re l")
      case (Some c)
      obtain ind status x dur where c: "c = (ind, status, x, dur)"
        by (cases c) auto
      from Some have b: "boundary l"
        by (simp add: boundary_def)
      with f have "none_ended ?s1"
        by simp
      from dispatch_end_view [OF h1 this run Some [unfolded c], of n e] f b run Some c
      show ?thesis
        by (auto simp: step_def track_def dispatch_emitted nameOf_def Let_def)
    next
      case None
      from dispatch_other_view [OF c1 run None, of n e] f run None show ?thesis
        by (auto simp: step_def track_def dispatch_emitted nameOf_def Let_def)
    qed
  qed
qed

lemma cinv_init: "cinv init"
  by (simp add: cinv_def ended_current_def init_def)

lemma foldl_track:
  "(view n (foldl (step e) init ls), emitted e n (w (foldl (step e) init ls))) =
     foldl (track n) (Absent, 0) ls
   \<and> cinv (foldl (step e) init ls)"
proof (induction ls rule: rev_induct)
  case Nil
  then show ?case
    by (simp add: cinv_init) (simp add: view_def init_def emitted_def)
next
  case (snoc l ls)
  have h: "hinv (foldl (step e) init ls)"
    by (simp add: hinv_foldl hinv_init)
  from snoc have c: "cinv (foldl (step e) init ls)"
    by simp
  from step_track [OF h c, of n e l] snoc show ?case
    by simp
qed

lemma emitted_expected: "emitted e n (processReader e r) = expected n (linesRead r)"
proof -
  let ?s = "foldl (step e) init (linesRead r)"
  from foldl_track [of n e "linesRead r"]
  have ft: "foldl (track n) (Absent, 0) (linesRead r) = (view n ?s, emitted e n (w ?s))"
    by simp
  have "pending n ?s = (if view n ?s = Absent then 0 else 1)"
    by (simp add: pending_def view_Absent)
  then show ?thesis
    by (simp add: emitted_processReader cnt_def expected_def ft Let_def)
qed

text \<open>The count read off the lines.\<close>

lemma expected_closing: "expected n ls = closing (foldl (track n) (Absent, 0) ls)"
  by (simp add: expected_def closing_def Let_def)

lemma closing_track_other: "nameOf l \<noteq> Some n \<Longrightarrow> closing (track n pk l) = closing pk"
  by (cases pk) (auto simp: track_def closing_def Let_def nameOf_def split: option.splits)

lemma closing_track_mono: "closing pk \<le> closing (track n pk l)"
  by (cases pk) (auto simp: track_def closing_def Let_def)

lemma closing_foldl_mono: "closing pk \<le> closing (foldl (track n) pk ls)"
proof (induction ls arbitrary: pk)
  case Nil
  then show ?case by simp
next
  case (Cons l ls)
  from closing_track_mono [of pk n l] Cons [of "track n pk l"] show ?case
    by simp
qed

lemma closing_foldl_other:
  "named n ls = 0 \<Longrightarrow> closing (foldl (track n) pk ls) = closing pk"
proof (induction ls arbitrary: pk)
  case Nil
  then show ?case by simp
next
  case (Cons l ls)
  from Cons.prems have l: "nameOf l \<noteq> Some n" and ls: "named n ls = 0"
    by (auto simp: named_def split: if_splits)
  from Cons.IH [OF ls, of "track n pk l"] closing_track_other [OF l, of pk] show ?case
    by simp
qed

lemma closing_endedOnce:
  assumes "endedOnce n ls" and "p \<noteq> Ended"
  shows "closing (foldl (track n) (p, 0) ls) = (if p = Absent \<and> named n ls = 0 then 0 else 1)"
  using assms
proof (induction ls arbitrary: p)
  case Nil
  then show ?case
    by (simp add: closing_def named_def)
next
  case (Cons l ls)
  show ?case
  proof (cases "run l = Some n")
    case True
    then have t: "track n (p, 0) l = (Started, 0)"
      using Cons.prems(2) by (simp add: track_def Let_def)
    from True Cons.prems(1) have "endedOnce n ls"
      by simp
    from Cons.IH [OF this, of Started] True show ?thesis
      by (simp add: t named_def nameOf_def)
  next
    case False
    show ?thesis
    proof (cases "nameOf l = Some n")
      case True
      with False have r: "run l = None"
        by (auto simp: nameOf_def split: option.splits)
      with True False have t: "track n (p, 0) l = (Ended, 0)"
        using Cons.prems(2) by (simp add: track_def Let_def)
      from r True Cons.prems(1) have "named n ls = 0"
        by simp
      from closing_foldl_other [OF this, of "(Ended, 0)"] True show ?thesis
        by (simp add: t closing_def named_def)
    next
      case n: False
      with False have t: "track n (p, 0) l = (p, 0)"
        using Cons.prems(2) by (simp add: track_def Let_def)
      from n Cons.prems(1) have "endedOnce n ls"
        by simp
      from Cons.IH [OF this Cons.prems(2)] n show ?thesis
        by (simp add: t named_def)
    qed
  qed
qed

lemma closing_named_again:
  assumes "0 < named n ls" and "p \<noteq> Started"
  shows "Suc (closing (p, k)) \<le> closing (foldl (track n) (p, k) ls)"
  using assms
proof (induction ls arbitrary: p k)
  case Nil
  then show ?case by (simp add: named_def)
next
  case (Cons l ls)
  show ?case
  proof (cases "nameOf l = Some n")
    case True
    with Cons.prems(2) have "Suc (closing (p, k)) \<le> closing (track n (p, k) l)"
      by (cases p) (auto simp: track_def closing_def Let_def boundary_def nameOf_def
          split: option.splits)
    with closing_foldl_mono [of "track n (p, k) l" n ls] show ?thesis
      by simp
  next
    case False
    with Cons.prems(1) have ls: "0 < named n ls"
      by (simp add: named_def)
    obtain q j where t: "track n (p, k) l = (q, j)"
      by (cases "track n (p, k) l") auto
    with False Cons.prems(2) have q: "q \<noteq> Started"
      by (auto simp: track_def Let_def nameOf_def split: if_splits)
    from closing_track_other [OF False, of "(p, k)"] t have "closing (q, j) = closing (p, k)"
      by simp
    with Cons.IH [OF ls q, of j] show ?thesis
      by (simp add: t)
  qed
qed

lemma closing_not_endedOnce:
  "\<not> endedOnce n ls \<Longrightarrow> k + 2 \<le> closing (foldl (track n) (p, k) ls)"
proof (induction ls arbitrary: p k)
  case Nil
  then show ?case by simp
next
  case (Cons l ls)
  obtain q j where t: "track n (p, k) l = (q, j)"
    by (cases "track n (p, k) l") auto
  have j: "k \<le> j"
    using t by (auto simp: track_def Let_def split: if_splits)
  show ?case
  proof (cases "run l = None \<and> nameOf l = Some n")
    case True
    with Cons.prems have ls: "0 < named n ls"
      by simp
    from True t have q: "q = Ended"
      by (auto simp: track_def Let_def split: if_splits)
    from closing_named_again [OF ls, of Ended j] j show ?thesis
      by (simp add: t q closing_def)
  next
    case False
    with Cons.prems have "\<not> endedOnce n ls"
      by auto
    from Cons.IH [OF this, of j q] j show ?thesis
      by (simp add: t)
  qed
qed

lemma expected_once:
  "endedOnce n ls \<Longrightarrow> expected n ls = (if named n ls = 0 then 0 else 1)"
  using closing_endedOnce [of n ls Absent] by (simp add: expected_closing)

lemma expected_le_1: "expected n ls \<le> 1 \<longleftrightarrow> endedOnce n ls"
proof
  assume le: "expected n ls \<le> 1"
  show "endedOnce n ls"
  proof (rule ccontr)
    assume "\<not> endedOnce n ls"
    from closing_not_endedOnce [OF this, of 0 Absent] le show False
      by (simp add: expected_closing)
  qed
next
  assume "endedOnce n ls"
  then show "expected n ls \<le> 1"
    by (simp add: expected_once)
qed

text \<open>
  Claim C3, amended. The number of tests of a name in the output is the number that the
  lines alone give: one for each record of the name, except the records that a later
  start line of the name replaces while they are pending. So a name is written at most
  once exactly when no line names it after one of its end lines, and then it is written
  once if a line names it and never otherwise. On every input a name is written at most
  as often as lines name it. Writing the current test in the loop takes its name out of
  the map of pending tests.
\<close>

theorem emitted_once_unless_named_again:
  "emitted e n (processReader e r) = expected n (linesRead r)
   \<and> (emitted e n (processReader e r) \<le> 1 \<longleftrightarrow> endedOnce n (linesRead r))
   \<and> (endedOnce n (linesRead r) \<longrightarrow>
        emitted e n (processReader e r) = (if named n (linesRead r) = 0 then 0 else 1))
   \<and> emitted e n (processReader e r) \<le> named n (linesRead r)
   \<and> map_of (tests (finalize e a s)) (Name (heap s ! a)) = None"
proof (intro conjI impI)
  show "emitted e n (processReader e r) = expected n (linesRead r)"
    by (rule emitted_expected)
next
  show "emitted e n (processReader e r) \<le> 1 \<longleftrightarrow> endedOnce n (linesRead r)"
    by (simp only: emitted_expected expected_le_1)
next
  assume "endedOnce n (linesRead r)"
  then show "emitted e n (processReader e r) = (if named n (linesRead r) = 0 then 0 else 1)"
    by (simp only: emitted_expected expected_once)
next
  show "emitted e n (processReader e r) \<le> named n (linesRead r)"
    using cnt_bounds [of e n "linesRead r"] by (simp add: emitted_processReader)
next
  show "map_of (tests (finalize e a s)) (Name (heap s ! a)) = None"
    by (simp add: finalize_frame AList.delete_conv')
qed

theorem emitted_once_unless_named_again_witness:
  "endedOnce ''A'' (linesRead (''=== RUN A'' @ [NL] @ ''--- PASS: A (1s)'' @ [NL]))
   \<and> named ''A'' (linesRead (''=== RUN A'' @ [NL] @ ''--- PASS: A (1s)'' @ [NL])) = 2
   \<and> expected ''A'' (linesRead (''=== RUN A'' @ [NL] @ ''--- PASS: A (1s)'' @ [NL])) = 1
   \<and> emitted env0 ''A''
        (processReader env0 (''=== RUN A'' @ [NL] @ ''--- PASS: A (1s)'' @ [NL])) = 1
   \<and> \<not> endedOnce ''A'' (linesRead (''--- PASS: A (1s)'' @ [NL] @ ''=== RUN A'' @ [NL]))
   \<and> emitted env0 ''A''
        (processReader env0 (''--- PASS: A (1s)'' @ [NL] @ ''=== RUN A'' @ [NL])) = 2
   \<and> emitted env0 ''C'' (processReader env0 (''=== RUN A'' @ [NL])) = 0
   \<and> map_of (tests (finalize env0 0
        (init\<lparr>heap := [\<lparr>Start = ''then'', Name = ''T'', Output = [], Details = [],
                          Duration = 0, Status = ''PASS'', Race = False, Suite = False\<rparr>],
               tests := [(''T'', 0)], test := Some 0\<rparr>))) ''T'' = None"
  using emitted_once_unless_named_again [of env0 "''A''"
      "''=== RUN A'' @ [NL] @ ''--- PASS: A (1s)'' @ [NL]" 0
      "init\<lparr>heap := [\<lparr>Start = ''then'', Name = ''T'', Output = [], Details = [],
                          Duration = 0, Status = ''PASS'', Race = False, Suite = False\<rparr>],
               tests := [(''T'', 0)], test := Some 0\<rparr>"]
    emitted_once_unless_named_again [of env0 "''A''"
      "''--- PASS: A (1s)'' @ [NL] @ ''=== RUN A'' @ [NL]" 0 init]
    emitted_once_unless_named_again [of env0 "''C''" "''=== RUN A'' @ [NL]" 0 init]
  by (simp add: expected_def track_def boundary_def named_def nameOf_def linesRead_def
      regex_defs init_def Let_def)

theorem emitted_twice_counterexample:
  "emitted env0 ''A'' (processReader env0
     (''=== RUN A'' @ [NL] @ ''--- PASS: A (1s)'' @ [NL]
        @ ''=== RUN A'' @ [NL] @ ''--- PASS: A (1s)'' @ [NL])) = 2
   \<and> processReader env0
     (''=== RUN A'' @ [NL] @ ''--- PASS: A (1s)'' @ [NL]
        @ ''=== RUN A'' @ [NL] @ ''--- PASS: A (1s)'' @ [NL]) =
     [TestStarted [] ''A'', Print [], TestFinished ''I'' ''A'' 1000,
      TestStarted ''II'' ''A'', Print [], TestFinished ''III'' ''A'' 1000, Print []]"
  by (simp add: emitted_def outputTest_def env0_def reader_defs regex_defs escape_eval)





end
